theory Spec2Isabelle
  imports Main
begin

section \<open>JavaScript strings\<close>

text \<open>
  A JavaScript string is modelled as a \<open>string\<close> (a list of \<open>char\<close>): one \<open>char\<close> per
  UTF-16 code unit, restricted to the code units below 256. Offsets are list positions,
  as \<open>match.index\<close> and \<open>String.prototype.slice\<close> count them.
\<close>

definition code :: "char \<Rightarrow> nat" where
  "code c = of_char c"

definition isLetter :: "char \<Rightarrow> bool" where
  \<comment> \<open>\<open>[a-zA-Z]\<close>\<close>
  "isLetter c = ((65 \<le> code c \<and> code c \<le> 90) \<or> (97 \<le> code c \<and> code c \<le> 122))"

definition isClassChar :: "char \<Rightarrow> bool" where
  \<comment> \<open>\<open>[a-zA-Z']\<close>\<close>
  "isClassChar c = (isLetter c \<or> code c = 39)"

definition isWordChar :: "char \<Rightarrow> bool" where
  \<comment> \<open>the regular expression class \<open>\w\<close>, that is \<open>[A-Za-z0-9_]\<close>, which decides \<open>\b\<close>\<close>
  "isWordChar c = (isLetter c \<or> (48 \<le> code c \<and> code c \<le> 57) \<or> code c = 95)"

definition isSpace :: "char \<Rightarrow> bool" where
  \<comment> \<open>the class \<open>\s\<close> below code unit 256: TAB, LF, VT, FF, CR, SP, NBSP\<close>
  "isSpace c = ((9 \<le> code c \<and> code c \<le> 13) \<or> code c = 32 \<or> code c = 160)"

definition lowerChar :: "char \<Rightarrow> char" where
  \<comment> \<open>\<open>toLowerCase\<close> on one code unit below 256: A-Z and the Latin-1 capitals\<close>
  "lowerChar c =
     (if (65 \<le> code c \<and> code c \<le> 90) \<or> (192 \<le> code c \<and> code c \<le> 222 \<and> code c \<noteq> 215)
      then char_of (code c + 32) else c)"

definition toLowerCase :: "string \<Rightarrow> string" where
  "toLowerCase s = map lowerChar s"

definition trim :: "string \<Rightarrow> string" where
  "trim s = rev (dropWhile isSpace (rev (dropWhile isSpace s)))"

definition slice :: "'a list \<Rightarrow> int \<Rightarrow> int \<Rightarrow> 'a list" where
  \<comment> \<open>\<open>s.slice(b, e)\<close> of a string or an array: a negative index counts from the end,
      and both are clamped\<close>
  "slice s b e =
     (let len = int (length s);
          lo = (if b < 0 then max (len + b) 0 else min b len);
          hi = (if e < 0 then max (len + e) 0 else min e len)
      in take (nat (hi - lo)) (drop (nat lo) s))"

section \<open>The word pattern\<close>

text \<open>
  Every tokenizer of the repository uses the pattern \<open>/\b[a-zA-Z']{2,}\b/g\<close>. At a start
  position the pattern needs a word boundary, then takes the longest run of class
  characters and gives characters back one at a time, down to two, until a word boundary
  follows. \<open>\b\<close> holds where exactly one side is a \<open>\w\<close> character.
\<close>

definition wordBoundary :: "string \<Rightarrow> nat \<Rightarrow> bool" where
  "wordBoundary s p =
     ((0 < p \<and> p \<le> length s \<and> isWordChar (s ! (p - 1))) \<noteq> (p < length s \<and> isWordChar (s ! p)))"

fun backtrack :: "string \<Rightarrow> nat \<Rightarrow> nat \<Rightarrow> nat option" where
  \<comment> \<open>the greedy quantifier giving back: lengths \<open>n\<close>, \<open>n - 1\<close>, ..., 2\<close>
  "backtrack s p 0 = None"
| "backtrack s p (Suc n) =
     (if Suc n < 2 then None
      else if wordBoundary s (p + Suc n) then Some (Suc n)
      else backtrack s p n)"

definition matchAt :: "string \<Rightarrow> nat \<Rightarrow> nat option" where
  \<comment> \<open>the length of the match that starts at \<open>p\<close>, if there is one\<close>
  "matchAt s p =
     (if wordBoundary s p then backtrack s p (length (takeWhile isClassChar (drop p s)))
      else None)"

text \<open>
  \<open>wordRegex.exec(s)\<close> with \<open>lastIndex = i\<close>: the first position from \<open>i\<close> on where the
  pattern matches, as \<open>(match.index, match[0])\<close>, or \<open>None\<close> for \<open>null\<close>. After a match
  \<open>lastIndex\<close> is the end of the match.
\<close>

function regexExec :: "string \<Rightarrow> nat \<Rightarrow> (nat \<times> string) option" where
  "regexExec s i =
     (if length s < i then None
      else (case matchAt s i of
              Some n \<Rightarrow> Some (i, take n (drop i s))
            | None \<Rightarrow> regexExec s (Suc i)))"
  by pat_completeness auto
termination
  by (relation "measure (\<lambda>(s, i). Suc (length s) - i)") auto

declare regexExec.simps [simp del]

lemma backtrack_Some: "backtrack s p m = Some n \<Longrightarrow> 2 \<le> n \<and> n \<le> m \<and> wordBoundary s (p + n)"
  by (induction m) (auto split: if_splits)

lemma matchAt_Some:
  assumes "matchAt s p = Some n"
  shows "2 \<le> n" and "p + n \<le> length s" and "wordBoundary s p" and "wordBoundary s (p + n)"
    and "\<forall>c \<in> set (take n (drop p s)). isClassChar c"
proof -
  let ?run = "takeWhile isClassChar (drop p s)"
  from assms have wb: "wordBoundary s p" and bt: "backtrack s p (length ?run) = Some n"
    by (auto simp: matchAt_def split: if_splits)
  from backtrack_Some [OF bt] have n: "2 \<le> n" "n \<le> length ?run" "wordBoundary s (p + n)"
    by auto
  have "length ?run \<le> length (drop p s)" by (rule length_takeWhile_le)
  with n show "p + n \<le> length s" by simp
  from n have "take n (drop p s) = take n ?run"
    by (metis takeWhile_dropWhile_id take_append diff_is_0_eq take_0 append_Nil2)
  then have "set (take n (drop p s)) \<subseteq> set ?run"
    by (metis set_take_subset)
  then show "\<forall>c \<in> set (take n (drop p s)). isClassChar c"
    by (auto dest: set_takeWhileD)
  show "2 \<le> n" "wordBoundary s p" "wordBoundary s (p + n)" using n wb by auto
qed

lemma regexExec_Some:
  "regexExec s i = Some (idx, w) \<Longrightarrow>
     i \<le> idx \<and> idx + length w \<le> length s \<and> 2 \<le> length w \<and> w = take (length w) (drop idx s)
     \<and> matchAt s idx = Some (length w)"
proof (induction s i rule: regexExec.induct)
  case (1 s i)
  show ?case
  proof (cases "matchAt s i")
    case None
    with "1.prems" have le: "\<not> length s < i" and rec: "regexExec s (Suc i) = Some (idx, w)"
      by (auto simp: regexExec.simps [of s i] split: if_splits)
    from "1.IH" [OF le None rec] show ?thesis by simp
  next
    case (Some n)
    with "1.prems" have eq: "idx = i" "w = take n (drop i s)"
      by (auto simp: regexExec.simps [of s i] split: if_splits)
    from matchAt_Some(1,2) [OF Some] have "2 \<le> n" "i + n \<le> length s" by auto
    then have "length w = n" using eq by simp
    with eq Some \<open>2 \<le> n\<close> \<open>i + n \<le> length s\<close> show ?thesis by simp
  qed
qed

section \<open>Regions to re-check (utils/index.ts)\<close>

record IncrementalCheckRegion =
  region_start :: int
  region_end :: int
  region_text :: string

text \<open>
  The loop of \<open>mergeOverlappingRegions\<close>. \<open>merged\<close> holds the regions already closed and
  \<open>lastR\<close> is the element \<open>merged[merged.length - 1]\<close>, which the loop body mutates in place.
\<close>

fun mergeLoop ::
  "IncrementalCheckRegion list \<Rightarrow> IncrementalCheckRegion \<Rightarrow> IncrementalCheckRegion list
     \<Rightarrow> IncrementalCheckRegion list" where
  "mergeLoop merged lastR [] = merged @ [lastR]"
| "mergeLoop merged lastR (current # rest) =
     (if region_start current \<le> region_end lastR
      then mergeLoop merged
             (lastR\<lparr>region_end := max (region_end lastR) (region_end current),
                   region_text := slice (region_text lastR) 0 (region_start lastR)
                                  @ slice (region_text current) 0
                                      (region_end current - region_start lastR)\<rparr>)
             rest
      else mergeLoop (merged @ [lastR]) current rest)"

definition mergeOverlappingRegions ::
  "IncrementalCheckRegion list \<Rightarrow> IncrementalCheckRegion list" where
  \<comment> \<open>\<open>Array.prototype.sort\<close> is stable, as \<open>sort_key\<close> is\<close>
  "mergeOverlappingRegions regions =
     (if length regions \<le> 1 then regions
      else (case sort_key region_start regions of
              [] \<Rightarrow> []
            | r0 # rest \<Rightarrow> mergeLoop [] r0 rest))"

text \<open>
  \<open>calculateTextChanges\<close>: the common prefix and the common suffix of the two texts are
  trimmed, and what is left of the new text is the one change.
\<close>

record TextChange =
  change_start :: nat
  change_end :: nat
  change_text :: string
  change_oldText :: string

function prefixScan :: "string \<Rightarrow> string \<Rightarrow> nat \<Rightarrow> nat" where
  "prefixScan oldText newText i =
     (if i < length oldText \<and> i < length newText \<and> oldText ! i = newText ! i
      then prefixScan oldText newText (Suc i) else i)"
  by pat_completeness auto
termination
  by (relation "measure (\<lambda>(oldText, newText, i). length oldText - i)") auto

function suffixScan :: "string \<Rightarrow> string \<Rightarrow> nat \<Rightarrow> nat \<Rightarrow> nat \<Rightarrow> nat \<times> nat" where
  "suffixScan oldText newText i oldEnd newEnd =
     (if i < oldEnd \<and> i < newEnd \<and> oldText ! (oldEnd - 1) = newText ! (newEnd - 1)
      then suffixScan oldText newText i (oldEnd - 1) (newEnd - 1) else (oldEnd, newEnd))"
  by pat_completeness auto
termination
  by (relation "measure (\<lambda>(oldText, newText, i, oldEnd, newEnd). oldEnd)") auto

declare prefixScan.simps [simp del] suffixScan.simps [simp del]

definition calculateTextChanges :: "string \<Rightarrow> string \<Rightarrow> TextChange list" where
  "calculateTextChanges oldText newText =
     (let i = prefixScan oldText newText 0
      in (case suffixScan oldText newText i (length oldText) (length newText) of
            (oldEnd, newEnd) \<Rightarrow>
              if i < oldEnd \<or> i < newEnd
              then [\<lparr>change_start = i, change_end = newEnd,
                     change_text = slice newText (int i) (int newEnd),
                     change_oldText = slice oldText (int i) (int oldEnd)\<rparr>]
              else []))"

text \<open>\<open>expandRegionWithContext\<close>: the words of the whole text, then the window of words.\<close>

record WordSpan =
  span_start :: nat
  span_end :: nat
  span_word :: string

function collectWords :: "string \<Rightarrow> nat \<Rightarrow> WordSpan list \<Rightarrow> WordSpan list" where
  "collectWords s lastIndex ws =
     (case regexExec s lastIndex of
        None \<Rightarrow> ws
      | Some m \<Rightarrow>
          collectWords s (fst m + length (snd m))
            (ws @ [\<lparr>span_start = fst m, span_end = fst m + length (snd m), span_word = snd m\<rparr>]))"
  by pat_completeness auto
termination
proof (relation "measure (\<lambda>(s, lastIndex, ws). Suc (length s) - lastIndex)")
  show "wf (measure (\<lambda>(s, lastIndex, ws). Suc (length s) - lastIndex))"
    by simp
next
  fix s :: string and lastIndex :: nat and ws :: "WordSpan list" and m :: "nat \<times> string"
  assume "regexExec s lastIndex = Some m"
  then have "regexExec s lastIndex = Some (fst m, snd m)" by simp
  from regexExec_Some [OF this]
  have "lastIndex \<le> fst m" "fst m + length (snd m) \<le> length s" "2 \<le> length (snd m)"
    by auto
  then show "((s, fst m + length (snd m),
         ws @ [\<lparr>span_start = fst m, span_end = fst m + length (snd m), span_word = snd m\<rparr>]),
        (s, lastIndex, ws))
      \<in> measure (\<lambda>(s, lastIndex, ws). Suc (length s) - lastIndex)"
    by simp
qed

declare collectWords.simps [simp del]

fun findIndexFrom :: "('a \<Rightarrow> bool) \<Rightarrow> 'a list \<Rightarrow> int \<Rightarrow> int" where
  "findIndexFrom P [] i = - 1"
| "findIndexFrom P (x # xs) i = (if P x then i else findIndexFrom P xs (i + 1))"

definition findIndex :: "('a \<Rightarrow> bool) \<Rightarrow> 'a list \<Rightarrow> int" where
  "findIndex P xs = findIndexFrom P xs 0"

definition expandRegionWithContext ::
  "string \<Rightarrow> nat \<Rightarrow> nat \<Rightarrow> int \<Rightarrow> IncrementalCheckRegion" where
  "expandRegionWithContext s b e contextWords =
     (let ws = collectWords s 0 [];
          n = int (length ws);
          i0 = findIndex (\<lambda>w. b < span_end w) ws;
          j0 = findIndex (\<lambda>w. e \<le> span_start w) ws;
          startWordIndex = (if i0 = - 1 then n else i0);
          endWordIndex = (if j0 = - 1 then n else j0);
          expandedStartIndex = max 0 (startWordIndex - contextWords);
          expandedEndIndex = min n (endWordIndex + contextWords);
          expandedStart = (if expandedStartIndex < n then span_start (ws ! nat expandedStartIndex) else b);
          expandedEnd = (if 0 < expandedEndIndex then span_end (ws ! nat (expandedEndIndex - 1)) else e)
      in \<lparr>region_start = int expandedStart, region_end = int expandedEnd,
          region_text = slice s (int expandedStart) (int expandedEnd)\<rparr>)"

definition calculateIncrementalCheckRegions ::
  "string \<Rightarrow> string \<Rightarrow> int \<Rightarrow> IncrementalCheckRegion list" where
  "calculateIncrementalCheckRegions oldText newText contextWords =
     (if oldText = [] \<or> newText = []
      then [\<lparr>region_start = 0, region_end = int (length newText), region_text = newText\<rparr>]
      else (case calculateTextChanges oldText newText of
              [] \<Rightarrow> []
            | changes \<Rightarrow>
                mergeOverlappingRegions
                  (map (\<lambda>change. expandRegionWithContext newText (change_start change)
                                    (change_end change) contextWords) changes)))"

section \<open>LRUCache\<close>

text \<open>
  The class \<open>LRUCache\<close> (the worker carries an inlined copy with the same method bodies).
  A node is named by its key. \<open>cache\<close> is the \<open>Map\<close> from a key to its node, kept as the
  value the node holds; \<open>chain\<close> lists the nodes linked between the two sentinels, from
  \<open>head.next\<close> to \<open>tail.prev\<close>; \<open>sizeL\<close> is the field \<open>size\<close>.
\<close>

record ('k, 'v) LRUCache =
  capacity :: int
  sizeL :: int
  cache :: "'k \<rightharpoonup> 'v"
  chain :: "'k list"

definition newLRUCache :: "int \<Rightarrow> ('k, 'v) LRUCache" where
  "newLRUCache cap = \<lparr>capacity = cap, sizeL = 0, cache = Map.empty, chain = []\<rparr>"

definition addToHead :: "'k \<Rightarrow> ('k, 'v) LRUCache \<Rightarrow> ('k, 'v) LRUCache" where
  "addToHead k c = c\<lparr>chain := k # chain c\<rparr>"

definition removeNode :: "'k \<Rightarrow> ('k, 'v) LRUCache \<Rightarrow> ('k, 'v) LRUCache" where
  "removeNode k c = c\<lparr>chain := remove1 k (chain c)\<rparr>"

definition moveToHead :: "'k \<Rightarrow> ('k, 'v) LRUCache \<Rightarrow> ('k, 'v) LRUCache" where
  "moveToHead k c = addToHead k (removeNode k c)"

definition removeTail :: "('k, 'v) LRUCache \<Rightarrow> 'k option \<times> ('k, 'v) LRUCache" where
  \<comment> \<open>unlinks \<open>tail.prev\<close> unless it is the head sentinel\<close>
  "removeTail c =
     (case chain c of
        [] \<Rightarrow> (None, c)
      | _ # _ \<Rightarrow> (Some (last (chain c)), c\<lparr>chain := butlast (chain c)\<rparr>))"

definition LRU_get :: "'k \<Rightarrow> ('k, 'v) LRUCache \<Rightarrow> 'v option \<times> ('k, 'v) LRUCache" where
  "LRU_get key c =
     (case cache c key of
        None \<Rightarrow> (None, c)
      | Some v \<Rightarrow> (Some v, moveToHead key c))"

definition LRU_set :: "'k \<Rightarrow> 'v \<Rightarrow> ('k, 'v) LRUCache \<Rightarrow> ('k, 'v) LRUCache" where
  "LRU_set key v c =
     (case cache c key of
        Some _ \<Rightarrow> moveToHead key (c\<lparr>cache := (cache c)(key \<mapsto> v)\<rparr>)
      | None \<Rightarrow>
          (let c1 = (addToHead key (c\<lparr>cache := (cache c)(key \<mapsto> v)\<rparr>))\<lparr>sizeL := sizeL c + 1\<rparr>
           in if capacity c1 < sizeL c1
              then (case removeTail c1 of
                      (Some k, c2) \<Rightarrow> c2\<lparr>cache := (cache c2)(k := None), sizeL := sizeL c2 - 1\<rparr>
                    | (None, c2) \<Rightarrow> c2)
              else c1))"

definition LRU_has :: "'k \<Rightarrow> ('k, 'v) LRUCache \<Rightarrow> bool" where
  "LRU_has key c = (cache c key \<noteq> None)"

definition LRU_delete :: "'k \<Rightarrow> ('k, 'v) LRUCache \<Rightarrow> bool \<times> ('k, 'v) LRUCache" where
  "LRU_delete key c =
     (case cache c key of
        None \<Rightarrow> (False, c)
      | Some _ \<Rightarrow> (True, (removeNode key c)\<lparr>cache := (cache c)(key := None), sizeL := sizeL c - 1\<rparr>))"

definition LRU_clear :: "('k, 'v) LRUCache \<Rightarrow> ('k, 'v) LRUCache" where
  "LRU_clear c = c\<lparr>sizeL := 0, cache := Map.empty, chain := []\<rparr>"

definition lru_ok :: "('k, 'v) LRUCache \<Rightarrow> bool" where
  \<comment> \<open>the map and the chain name the same nodes, each once, and \<open>size\<close> counts them\<close>
  "lru_ok c = (distinct (chain c) \<and> set (chain c) = dom (cache c) \<and> sizeL c = int (length (chain c)))"

section \<open>The spell-check worker\<close>

text \<open>
  The dictionary is the external \<open>typo-js\<close> object, taken as its two methods; both are
  functions of the word alone.
\<close>

record Typo =
  check :: "string \<Rightarrow> bool"
  suggest :: "string \<Rightarrow> string list"

record SpellCheckResult =
  word :: string
  start :: int
  endpos :: int
  isCorrect :: "bool option"

record RegionEntry =
  entry_words :: "string list"
  entry_results :: "SpellCheckResult list"

datatype response =
    DICTIONARY_READY
  | CHECK_RESULT "SpellCheckResult list" "string \<rightharpoonup> bool"
  | DICTIONARY_UPDATED string string
  | CACHE_STATS nat
  | SUGGESTIONS_RESULT string "string list"

text \<open>
  The module-level variables of the worker. The region key \<open>`${start}-${end}`\<close> is kept
  as the pair of the two integers, which it determines. \<open>posted\<close> collects the messages
  handed to \<open>self.postMessage\<close>, and \<open>checkLog\<close> the words handed to \<open>dictionary.check\<close>,
  both in call order; neither is read by the program.
\<close>

record worker =
  dictionary :: "Typo option"
  customWords :: "string set"
  checkedCache :: "(string, bool) LRUCache"
  regionCache :: "(int \<times> int, RegionEntry) LRUCache"
  currentCheckCache :: "string \<rightharpoonup> bool"
  lastFullText :: string
  posted :: "response list"
  checkLog :: "string list"

definition initialWorker :: worker where
  "initialWorker =
     \<lparr>dictionary = None, customWords = {}, checkedCache = newLRUCache 5000,
      regionCache = newLRUCache 1000, currentCheckCache = Map.empty, lastFullText = [],
      posted = [], checkLog = []\<rparr>"

text \<open>
  The verdict on one lowercased word, as both check loops compute it: the cached verdict
  when \<open>checkedCache.has\<close> the word (read with \<open>get\<close>, which promotes it), otherwise
  \<open>customWords.has(w) || (dictionary?.check(w) ?? true)\<close>, stored with \<open>set\<close>.
\<close>

definition isValidWord :: "worker \<Rightarrow> string \<Rightarrow> bool" where
  "isValidWord st lowerWord =
     (lowerWord \<in> customWords st \<or> (case dictionary st of None \<Rightarrow> True | Some d \<Rightarrow> check d lowerWord))"

definition logCheck :: "worker \<Rightarrow> string \<Rightarrow> worker" where
  "logCheck st lowerWord =
     (if lowerWord \<in> customWords st then st
      else (case dictionary st of
              None \<Rightarrow> st
            | Some d \<Rightarrow> st\<lparr>checkLog := checkLog st @ [lowerWord]\<rparr>))"

definition checkWord :: "worker \<Rightarrow> string \<Rightarrow> bool \<times> worker" where
  "checkWord st lowerWord =
     (if LRU_has lowerWord (checkedCache st)
      then (case LRU_get lowerWord (checkedCache st) of
              (v, c) \<Rightarrow> (v = Some True, st\<lparr>checkedCache := c\<rparr>))
      else (let isValid = isValidWord st lowerWord;
                st1 = logCheck st lowerWord
            in (isValid, st1\<lparr>checkedCache := LRU_set lowerWord isValid (checkedCache st1)\<rparr>)))"

subsection \<open>processText\<close>

definition processWord ::
  "nat \<times> string \<Rightarrow> SpellCheckResult list \<times> worker \<Rightarrow> SpellCheckResult list \<times> worker" where
  \<comment> \<open>one turn of the loop of \<open>processText\<close>, on the match \<open>(match.index, match[0])\<close>\<close>
  "processWord m acc =
     (case (m, acc) of
        ((index, w), (results, st)) \<Rightarrow>
          (case checkWord st (toLowerCase w) of
             (isValid, st1) \<Rightarrow>
               if isValid then (results, st1)
               else (results @ [\<lparr>word = w, start = int index,
                                  endpos = int index + int (length w), isCorrect = None\<rparr>],
                     st1\<lparr>currentCheckCache := (currentCheckCache st1)(toLowerCase w \<mapsto> False)\<rparr>)))"

function processTextLoop ::
  "string \<Rightarrow> nat \<Rightarrow> SpellCheckResult list \<times> worker \<Rightarrow> SpellCheckResult list \<times> worker" where
  "processTextLoop fullText lastIndex acc =
     (case regexExec fullText lastIndex of
        None \<Rightarrow> acc
      | Some m \<Rightarrow> processTextLoop fullText (fst m + length (snd m)) (processWord m acc))"
  by pat_completeness auto
termination
proof (relation "measure (\<lambda>(fullText, lastIndex, acc). Suc (length fullText) - lastIndex)")
  show "wf (measure (\<lambda>(fullText, lastIndex, acc). Suc (length fullText) - lastIndex))"
    by simp
next
  fix fullText :: string and lastIndex :: nat and acc :: "SpellCheckResult list \<times> worker"
    and m :: "nat \<times> string"
  assume "regexExec fullText lastIndex = Some m"
  then have "regexExec fullText lastIndex = Some (fst m, snd m)" by simp
  from regexExec_Some [OF this]
  have "lastIndex \<le> fst m" "fst m + length (snd m) \<le> length fullText" "2 \<le> length (snd m)"
    by auto
  then show "((fullText, fst m + length (snd m), processWord m acc), (fullText, lastIndex, acc))
      \<in> measure (\<lambda>(fullText, lastIndex, acc). Suc (length fullText) - lastIndex)"
    by simp
qed

declare processTextLoop.simps [simp del]

definition processText :: "worker \<Rightarrow> string \<Rightarrow> SpellCheckResult list \<times> worker" where
  \<comment> \<open>the periodic \<open>await\<close> changes no variable and is left out: a check is taken to
      run to its end before the next message is handled\<close>
  "processText st fullText = processTextLoop fullText 0 ([], st)"

subsection \<open>processIncrementalText\<close>

definition shiftResult :: "int \<Rightarrow> SpellCheckResult \<Rightarrow> SpellCheckResult" where
  "shiftResult d r = r\<lparr>start := start r + d, endpos := endpos r + d\<rparr>"

definition processRegionWord ::
  "int \<Rightarrow> nat \<times> string
     \<Rightarrow> string list \<times> SpellCheckResult list \<times> SpellCheckResult list \<times> worker
     \<Rightarrow> string list \<times> SpellCheckResult list \<times> SpellCheckResult list \<times> worker" where
  \<comment> \<open>one turn of the inner loop, on the match \<open>(match.index, match[0])\<close> in the region text\<close>
  "processRegionWord regionStart m acc =
     (case (m, acc) of
        ((index, w), (regionWords, regionResults, results, st)) \<Rightarrow>
          (case checkWord st (toLowerCase w) of
             (isValid, st1) \<Rightarrow>
               if isValid then (regionWords @ [w], regionResults, results, st1)
               else (let result = \<lparr>word = w, start = int index,
                                     endpos = int index + int (length w), isCorrect = Some False\<rparr>
                     in (regionWords @ [w], regionResults @ [result],
                         results @ [shiftResult regionStart result],
                         st1\<lparr>currentCheckCache := (currentCheckCache st1)(toLowerCase w \<mapsto> False)\<rparr>))))"

function regionLoop ::
  "int \<Rightarrow> string \<Rightarrow> nat
     \<Rightarrow> string list \<times> SpellCheckResult list \<times> SpellCheckResult list \<times> worker
     \<Rightarrow> string list \<times> SpellCheckResult list \<times> SpellCheckResult list \<times> worker" where
  "regionLoop regionStart regionText lastIndex acc =
     (case regexExec regionText lastIndex of
        None \<Rightarrow> acc
      | Some m \<Rightarrow>
          regionLoop regionStart regionText (fst m + length (snd m))
            (processRegionWord regionStart m acc))"
  by pat_completeness auto
termination
proof (relation "measure (\<lambda>(regionStart, regionText, lastIndex, acc). Suc (length regionText) - lastIndex)")
  show "wf (measure (\<lambda>(regionStart, regionText, lastIndex, acc).
      Suc (length regionText) - lastIndex))"
    by simp
next
  fix regionStart :: int and regionText :: string and lastIndex :: nat
    and acc :: "string list \<times> SpellCheckResult list \<times> SpellCheckResult list \<times> worker"
    and m :: "nat \<times> string"
  assume "regexExec regionText lastIndex = Some m"
  then have "regexExec regionText lastIndex = Some (fst m, snd m)" by simp
  from regexExec_Some [OF this]
  have "lastIndex \<le> fst m" "fst m + length (snd m) \<le> length regionText" "2 \<le> length (snd m)"
    by auto
  then show "((regionStart, regionText, fst m + length (snd m), processRegionWord regionStart m acc),
        (regionStart, regionText, lastIndex, acc))
      \<in> measure (\<lambda>(regionStart, regionText, lastIndex, acc). Suc (length regionText) - lastIndex)"
    by simp
qed

declare regionLoop.simps [simp del]

definition regionCacheValid :: "RegionEntry option \<Rightarrow> string \<Rightarrow> bool" where
  \<comment> \<open>\<open>cached && cached.words.join('') === regionText.replace(/\s+/g, '')\<close>\<close>
  "regionCacheValid cached regionText =
     (case cached of
        None \<Rightarrow> False
      | Some e \<Rightarrow> concat (entry_words e) = filter (\<lambda>c. \<not> isSpace c) regionText)"

definition recomputeRegion ::
  "IncrementalCheckRegion \<Rightarrow> SpellCheckResult list \<times> worker \<Rightarrow> SpellCheckResult list \<times> worker" where
  \<comment> \<open>the region is tokenized on its own text and its words and results are cached\<close>
  "recomputeRegion region acc =
     (case acc of
        (results, st) \<Rightarrow>
          (case regionLoop (region_start region) (region_text region) 0 ([], [], results, st) of
             (regionWords, regionResults, results1, st1) \<Rightarrow>
               (results1,
                st1\<lparr>regionCache :=
                      LRU_set (region_start region, region_end region)
                        \<lparr>entry_words = regionWords, entry_results = regionResults\<rparr>
                        (regionCache st1)\<rparr>)))"

definition useCachedRegion ::
  "IncrementalCheckRegion \<Rightarrow> RegionEntry \<Rightarrow> SpellCheckResult list \<times> worker
     \<Rightarrow> SpellCheckResult list \<times> worker" where
  "useCachedRegion region e acc =
     (case acc of
        (results, st) \<Rightarrow> (results @ map (shiftResult (region_start region)) (entry_results e), st))"

definition processRegion ::
  "IncrementalCheckRegion \<Rightarrow> SpellCheckResult list \<times> worker \<Rightarrow> SpellCheckResult list \<times> worker" where
  \<comment> \<open>one turn of the loop over the regions\<close>
  "processRegion region acc =
     (case acc of
        (results, st) \<Rightarrow>
          (case LRU_get (region_start region, region_end region) (regionCache st) of
             (cached, rc) \<Rightarrow>
               if regionCacheValid cached (region_text region)
               then (case cached of
                       Some e \<Rightarrow> useCachedRegion region e (results, st\<lparr>regionCache := rc\<rparr>)
                     | None \<Rightarrow> (results, st\<lparr>regionCache := rc\<rparr>))
               else recomputeRegion region (results, st\<lparr>regionCache := rc\<rparr>)))"

definition processIncrementalText ::
  "worker \<Rightarrow> string \<Rightarrow> IncrementalCheckRegion list \<Rightarrow> SpellCheckResult list \<times> worker" where
  "processIncrementalText st fullText regions =
     fold processRegion regions ([], st\<lparr>currentCheckCache := Map.empty\<rparr>)"

subsection \<open>Suggestions\<close>

definition commonWords :: "string list" where
  "commonWords =
   [
    ''the'', ''be'', ''to'', ''of'', ''and'', ''a'', ''in'', ''that'', ''have'', ''i'',
    ''it'', ''for'', ''not'', ''on'', ''with'', ''he'', ''as'', ''you'', ''do'', ''at'',
    ''this'', ''but'', ''his'', ''by'', ''from'', ''they'', ''we'', ''say'', ''her'',
    ''she'', ''or'', ''an'', ''will'', ''my'', ''one'', ''all'', ''would'', ''there'',
    ''their'', ''what'', ''so'', ''up'', ''out'', ''if'', ''about'', ''who'', ''get'',
    ''which'', ''go'', ''me'', ''when'', ''make'', ''can'', ''like'', ''time'', ''no'',
    ''just'', ''him'', ''know'', ''take'', ''people'', ''into'', ''year'', ''your'',
    ''good'', ''some'', ''could'', ''them'', ''see'', ''other'', ''than'', ''then'',
    ''now'', ''look'', ''only'', ''come'', ''its'', ''over'', ''think'', ''also'',
    ''back'', ''after'', ''use'', ''two'', ''how'', ''our'', ''work'', ''first'',
    ''well'', ''way'', ''even'', ''new'', ''want'', ''because'', ''any'', ''these'',
    ''give'', ''day'', ''most'', ''us'', ''is'', ''water'', ''long'', ''very'',
    ''find'', ''still'', ''life'', ''become'', ''here'', ''old'', ''see'', ''him'',
    ''two'', ''more'', ''go'', ''do'', ''no'', ''way'', ''could'', ''my'', ''than'',
    ''first'', ''been'', ''call'', ''who'', ''its'', ''now'', ''find'', ''long'',
    ''down'', ''day'', ''did'', ''get'', ''come'', ''made'', ''may'', ''part''
   ]"

text \<open>
  \<open>calculateEditDistance\<close> fills the matrix row by row. \<open>fillRow\<close> computes the entries
  \<open>matrix[i][1..]\<close> from the row above it: \<open>diag\<close> and \<open>up\<close> are \<open>matrix[i-1][j-1]\<close> and
  \<open>matrix[i-1][j]\<close>, and \<open>left\<close> is \<open>matrix[i][j-1]\<close>.
\<close>

fun fillRow :: "char \<Rightarrow> string \<Rightarrow> nat list \<Rightarrow> nat \<Rightarrow> nat list" where
  "fillRow c (d # ds) (diag # up # prev) left =
     (let v = (if c = d then diag else min (min (up + 1) (left + 1)) (diag + 1))
      in v # fillRow c ds (up # prev) v)"
| "fillRow c _ _ _ = []"

fun fillMatrix :: "string \<Rightarrow> string \<Rightarrow> nat \<Rightarrow> nat list \<Rightarrow> nat list" where
  \<comment> \<open>the rows \<open>i\<close>, \<open>i + 1\<close>, ... for the rest of \<open>str1\<close>; the result is the last row\<close>
  "fillMatrix [] str2 i prev = prev"
| "fillMatrix (c # cs) str2 i prev = fillMatrix cs str2 (Suc i) (i # fillRow c str2 prev i)"

definition calculateEditDistance :: "string \<Rightarrow> string \<Rightarrow> nat" where
  "calculateEditDistance str1 str2 = last (fillMatrix str1 str2 1 [0 ..< Suc (length str2)])"

fun suggestLoop :: "string \<Rightarrow> int \<Rightarrow> string list \<Rightarrow> string list \<Rightarrow> string list" where
  "suggestLoop w maxSuggestions [] suggestions = suggestions"
| "suggestLoop w maxSuggestions (candidate # rest) suggestions =
     (if \<bar>int (length candidate) - int (length w)\<bar> \<le> 2
      then (let distance = calculateEditDistance w candidate
            in if distance \<le> 2 \<and> 0 < distance
               then (if maxSuggestions \<le> int (length (suggestions @ [candidate]))
                     then suggestions @ [candidate]
                     else suggestLoop w maxSuggestions rest (suggestions @ [candidate]))
               else suggestLoop w maxSuggestions rest suggestions)
      else suggestLoop w maxSuggestions rest suggestions)"

definition getSimpleSuggestions :: "string \<Rightarrow> int \<Rightarrow> string list" where
  "getSimpleSuggestions w maxSuggestions = suggestLoop w maxSuggestions commonWords []"

definition getSuggestions :: "worker \<Rightarrow> string \<Rightarrow> int \<Rightarrow> string list" where
  "getSuggestions st w maxSuggestions =
     (case dictionary st of
        None \<Rightarrow> []
      | Some d \<Rightarrow>
          if w = [] then []
          else if toLowerCase w \<in> customWords st then []
          else if suggest d w = [] then getSimpleSuggestions (toLowerCase w) maxSuggestions
          else filter (\<lambda>suggestion. toLowerCase suggestion \<noteq> toLowerCase w)
                 (slice (suggest d w) 0 maxSuggestions))"

subsection \<open>The message handler\<close>

datatype request =
    INIT_DICTIONARY Typo
  | ADD_WORD string
  | REMOVE_WORD string
  | CLEAR_WORDS
  | GET_CACHE_STATS
  | GET_SUGGESTIONS string
  | CHECK_TEXT string
  | CHECK_INCREMENTAL string "IncrementalCheckRegion list"
  | OTHER_MESSAGE

definition postMessage :: "response \<Rightarrow> worker \<Rightarrow> worker" where
  "postMessage r st = st\<lparr>posted := posted st @ [r]\<rparr>"

fun onmessage :: "worker \<Rightarrow> request \<Rightarrow> worker" where
  "onmessage st (INIT_DICTIONARY d) =
     postMessage DICTIONARY_READY
       (st\<lparr>dictionary := Some d, checkedCache := LRU_clear (checkedCache st),
            regionCache := LRU_clear (regionCache st)\<rparr>)"
| "onmessage st (ADD_WORD w) =
     (let st1 = st\<lparr>customWords := insert (toLowerCase w) (customWords st),
                     checkedCache := LRU_clear (checkedCache st),
                     regionCache := LRU_clear (regionCache st),
                     currentCheckCache := Map.empty\<rparr>;
          st2 = (if lastFullText st1 \<noteq> []
                 then (case processText st1 (lastFullText st1) of
                         (invalidWords, st') \<Rightarrow>
                           postMessage (CHECK_RESULT invalidWords (currentCheckCache st')) st')
                 else st1)
      in postMessage (DICTIONARY_UPDATED ''ADD_WORD'' w) st2)"
| "onmessage st (REMOVE_WORD w) =
     (let st1 = st\<lparr>customWords := customWords st - {toLowerCase w},
                     checkedCache := LRU_clear (checkedCache st),
                     regionCache := LRU_clear (regionCache st),
                     currentCheckCache := Map.empty\<rparr>;
          st2 = (if lastFullText st1 \<noteq> []
                 then (case processText st1 (lastFullText st1) of
                         (invalidWords, st') \<Rightarrow>
                           postMessage (CHECK_RESULT invalidWords (currentCheckCache st')) st')
                 else st1)
      in postMessage (DICTIONARY_UPDATED ''REMOVE_WORD'' w) st2)"
| "onmessage st CLEAR_WORDS =
     st\<lparr>customWords := {}, checkedCache := LRU_clear (checkedCache st),
         regionCache := LRU_clear (regionCache st)\<rparr>"
| "onmessage st GET_CACHE_STATS = postMessage (CACHE_STATS (card (customWords st))) st"
| "onmessage st (GET_SUGGESTIONS w) =
     postMessage (SUGGESTIONS_RESULT w (getSuggestions st w 5)) st"
| "onmessage st (CHECK_TEXT fullText) =
     (case processText st fullText of
        (invalidWords, st1) \<Rightarrow>
          postMessage (CHECK_RESULT invalidWords (currentCheckCache st1))
            (st1\<lparr>lastFullText := fullText\<rparr>))"
| "onmessage st (CHECK_INCREMENTAL fullText regions) =
     (case processIncrementalText st fullText regions of
        (invalidWords, st1) \<Rightarrow>
          postMessage (CHECK_RESULT invalidWords (currentCheckCache st1))
            (st1\<lparr>lastFullText := fullText\<rparr>))"
| "onmessage st OTHER_MESSAGE = st"

section \<open>CustomDictionary\<close>

text \<open>
  The argument of \<open>addWord\<close> is typed \<open>string\<close> but tested at run time, so it is a string
  or some other value. \<open>dwords\<close> is the \<open>Set\<close> of words in insertion order, \<open>sent\<close> the
  messages posted to the worker when one is attached, and \<open>storage\<close> the words last
  written by \<open>saveToStorage\<close>.
\<close>

datatype jsvalue = JString string | JNotString

record CustomDictionary =
  dwords :: "string list"
  maxWords :: int
  autoSave :: bool
  hasWorker :: bool
  sent :: "request list"
  storage :: "string list option"

definition setAdd :: "'a \<Rightarrow> 'a list \<Rightarrow> 'a list" where
  \<comment> \<open>\<open>Set.prototype.add\<close>\<close>
  "setAdd x xs = (if x \<in> set xs then xs else xs @ [x])"

definition postToWorker :: "request \<Rightarrow> CustomDictionary \<Rightarrow> CustomDictionary" where
  \<comment> \<open>\<open>this.worker?.postMessage(...)\<close>\<close>
  "postToWorker r d = (if hasWorker d then d\<lparr>sent := sent d @ [r]\<rparr> else d)"

definition saveToStorage :: "CustomDictionary \<Rightarrow> CustomDictionary" where
  "saveToStorage d = d\<lparr>storage := Some (dwords d)\<rparr>"

definition addWord :: "jsvalue \<Rightarrow> CustomDictionary \<Rightarrow> bool \<times> CustomDictionary" where
  "addWord v d =
     (case v of
        JNotString \<Rightarrow> (False, d)
      | JString w \<Rightarrow>
          if w = [] then (False, d)
          else (let normalizedWord = trim (toLowerCase w)
                in if normalizedWord = [] \<or> length normalizedWord < 2 then (False, d)
                   else if maxWords d \<le> int (length (dwords d)) \<and> normalizedWord \<notin> set (dwords d)
                   then (False, d)
                   else (let wasAdded = (normalizedWord \<notin> set (dwords d));
                             d1 = d\<lparr>dwords := setAdd normalizedWord (dwords d)\<rparr>
                         in if wasAdded
                            then (True, (if autoSave d1 then saveToStorage else id)
                                          (postToWorker (ADD_WORD normalizedWord) d1))
                            else (False, d1))))"

section \<open>Notions used by the properties\<close>

text \<open>The successive results of \<open>exec\<close> on a text from \<open>lastIndex = i\<close>, until \<open>null\<close>.\<close>

definition matchesFrom :: "string \<Rightarrow> nat \<Rightarrow> (nat \<times> string) list" where
  "matchesFrom s i = map (\<lambda>w. (span_start w, span_word w)) (collectWords s i [])"

text \<open>
  A small dictionary for worked examples: it knows \<open>hello\<close> and \<open>world\<close> and never
  suggests anything. \<open>readyWorker\<close> is the worker once it has handled \<open>INIT_DICTIONARY\<close>
  with it.
\<close>

definition sampleTypo :: Typo where
  "sampleTypo = \<lparr>check = (\<lambda>w. w \<in> set [''hello'', ''world'']), suggest = (\<lambda>w. [])\<rparr>"

definition readyWorker :: worker where
  "readyWorker = onmessage initialWorker (INIT_DICTIONARY sampleTypo)"

definition clearScenario :: worker where
  \<comment> \<open>\<open>helo\<close> is added to the custom words, then \<open>helo wrold\<close> is checked in full\<close>
  "clearScenario = onmessage (onmessage readyWorker (ADD_WORD ''helo'')) (CHECK_TEXT ''helo wrold'')"

definition sampleDictionary :: CustomDictionary where
  "sampleDictionary =
     \<lparr>dwords = [''hello''], maxWords = 10000, autoSave = True, hasWorker = True,
      sent = [], storage = None\<rparr>"

definition normalizedOf :: "jsvalue \<Rightarrow> string" where
  \<comment> \<open>the lowercased and trimmed form of a string argument\<close>
  "normalizedOf v = (case v of JString w \<Rightarrow> trim (toLowerCase w) | JNotString \<Rightarrow> [])"

text \<open>
  Invariants of the two caches. A cached verdict is the verdict the dictionary and the
  custom words give now; \<open>sameDictionary\<close> says that neither of the two has changed.
\<close>

definition cacheConsistent :: "worker \<Rightarrow> bool" where
  "cacheConsistent st = (\<forall>k v. cache (checkedCache st) k = Some v \<longrightarrow> v = isValidWord st k)"

definition sameDictionary :: "worker \<Rightarrow> worker \<Rightarrow> bool" where
  "sameDictionary st st' = (dictionary st' = dictionary st \<and> customWords st' = customWords st)"

definition regionCacheClean :: "worker \<Rightarrow> bool" where
  "regionCacheClean st = (\<forall>k e. cache (regionCache st) k = Some e \<longrightarrow> entry_results e = [])"

text \<open>
  The result entries the two checks build for a match, and the matches that the
  dictionary and the custom words reject.
\<close>

definition fullResult :: "nat \<times> string \<Rightarrow> SpellCheckResult" where
  "fullResult m =
     \<lparr>word = snd m, start = int (fst m), endpos = int (fst m) + int (length (snd m)),
      isCorrect = None\<rparr>"

definition localResult :: "nat \<times> string \<Rightarrow> SpellCheckResult" where
  "localResult m =
     \<lparr>word = snd m, start = int (fst m), endpos = int (fst m) + int (length (snd m)),
      isCorrect = Some False\<rparr>"

definition invalidMatches :: "worker \<Rightarrow> (nat \<times> string) list \<Rightarrow> (nat \<times> string) list" where
  "invalidMatches st ms = filter (\<lambda>m. \<not> isValidWord st (toLowerCase (snd m))) ms"

text \<open>
  What it means for \<open>s[b:e]\<close> to be a maximal run of letters and apostrophes: it is such a
  run and cannot be extended on either side.
\<close>

definition isMaximalRun :: "string \<Rightarrow> nat \<Rightarrow> nat \<Rightarrow> bool" where
  "isMaximalRun s b e =
     (b < e \<and> e \<le> length s \<and> list_all isClassChar (take (e - b) (drop b s))
      \<and> \<not> (0 < b \<and> isClassChar (s ! (b - 1))) \<and> \<not> (e < length s \<and> isClassChar (s ! e)))"

definition isDigit :: "char \<Rightarrow> bool" where
  "isDigit c = (48 \<le> code c \<and> code c \<le> 57)"

text \<open>Inserting a list of key-value pairs, one \<open>set\<close> after the other.\<close>

definition insertAll :: "('k \<times> 'v) list \<Rightarrow> ('k, 'v) LRUCache \<Rightarrow> ('k, 'v) LRUCache" where
  "insertAll kvs c = fold (\<lambda>kv. LRU_set (fst kv) (snd kv)) kvs c"

text \<open>
  For the region cache: the text without its whitespace, the words the pattern finds in
  a text, and a region \<open>[0,5)\<close> with the text \<open>helo.\<close>, checked once by \<open>readyWorker\<close>.
\<close>

definition stripSpaces :: "string \<Rightarrow> string" where
  \<comment> \<open>\<open>regionText.replace(/\s+/g, '')\<close>\<close>
  "stripSpaces s = filter (\<lambda>c. \<not> isSpace c) s"

definition wordsOf :: "string \<Rightarrow> string list" where
  "wordsOf s = map snd (matchesFrom s 0)"

definition heloRegion :: IncrementalCheckRegion where
  "heloRegion = \<lparr>region_start = 0, region_end = 5, region_text = ''helo.''\<rparr>"

definition heloChecked :: worker where
  "heloChecked = snd (recomputeRegion heloRegion ([], readyWorker))"

text \<open>
  The Levenshtein distance, by its recurrence over prefixes: \<open>levP a b i j\<close> is the distance
  between the first \<open>i\<close> characters of \<open>a\<close> and the first \<open>j\<close> characters of \<open>b\<close>, the least
  of a deletion, an insertion and a substitution (free when the two characters agree). A
  candidate is close to a word when the distance is 1 or 2.
\<close>

fun levP :: "'a list \<Rightarrow> 'a list \<Rightarrow> nat \<Rightarrow> nat \<Rightarrow> nat" where
  "levP a b 0 j = j"
| "levP a b (Suc i) 0 = Suc i"
| "levP a b (Suc i) (Suc j) =
     min (min (levP a b i (Suc j) + 1) (levP a b (Suc i) j + 1))
         (levP a b i j + (if a ! i = b ! j then 0 else 1))"

definition levenshtein :: "'a list \<Rightarrow> 'a list \<Rightarrow> nat" where
  "levenshtein a b = levP a b (length a) (length b)"

definition closeWord :: "string \<Rightarrow> string \<Rightarrow> bool" where
  "closeWord w c = (1 \<le> levenshtein w c \<and> levenshtein w c \<le> 2)"

text \<open>
  For two checks in a row: the lowercased words of a text, which are the keys the check
  looks up, and a cache whose size is within its capacity.
\<close>

definition wordKeys :: "string \<Rightarrow> string list" where
  "wordKeys s = map toLowerCase (wordsOf s)"

definition keysOf :: "(nat \<times> string) list \<Rightarrow> string list" where
  "keysOf ms = map (\<lambda>m. toLowerCase (snd m)) ms"

definition lru_bounded :: "('k, 'v) LRUCache \<Rightarrow> bool" where
  "lru_bounded c = (lru_ok c \<and> sizeL c \<le> capacity c)"

text \<open>
  A text of \<open>n\<close> different words, each followed by a space: \<open>aa aaa aaaa\<close> and so on.
  \<open>shiftMatch\<close> moves a match to the right.
\<close>

definition aWord :: "nat \<Rightarrow> string" where
  "aWord n = replicate (n + 2) CHR ''a''"

fun manyWords :: "nat \<Rightarrow> string" where
  "manyWords 0 = []"
| "manyWords (Suc n) = manyWords n @ aWord n @ '' ''"

definition shiftMatch :: "nat \<Rightarrow> nat \<times> string \<Rightarrow> nat \<times> string" where
  "shiftMatch d m = (d + fst m, snd m)"

text \<open>
  What holds of the worker in every state it reaches: cached verdicts are current, and
  both caches are well formed, within their capacities of 5000 and 1000.
\<close>

definition workerInv :: "worker \<Rightarrow> bool" where
  "workerInv st =
     (cacheConsistent st
      \<and> lru_bounded (checkedCache st) \<and> capacity (checkedCache st) = 5000
      \<and> lru_bounded (regionCache st) \<and> capacity (regionCache st) = 1000)"

text \<open>A worker state with another set of custom words.\<close>

definition withCustomWords :: "worker \<Rightarrow> string set \<Rightarrow> worker" where
  "withCustomWords st ws = st\<lparr>customWords := ws\<rparr>"

section \<open>Properties\<close>

subsection \<open>The check loops as folds over the matches\<close>

lemma regexExec_decreases:
  assumes "regexExec s i = Some m"
  shows "Suc (length s) - (fst m + length (snd m)) < Suc (length s) - i"
proof -
  from assms have "regexExec s i = Some (fst m, snd m)" by simp
  from regexExec_Some [OF this] show ?thesis by linarith
qed

lemma collectWords_acc: "collectWords s i ws = ws @ collectWords s i []"
proof (induction "Suc (length s) - i" arbitrary: i ws rule: less_induct)
  case less
  show ?case
  proof (cases "regexExec s i")
    case None
    then show ?thesis by (simp add: collectWords.simps [of s i])
  next
    case (Some m)
    let ?w = "\<lparr>span_start = fst m, span_end = fst m + length (snd m), span_word = snd m\<rparr>"
    let ?j = "fst m + length (snd m)"
    note IH = less [OF regexExec_decreases [OF Some]]
    have "collectWords s i ws = collectWords s ?j (ws @ [?w])"
      using Some by (simp add: collectWords.simps [of s i ws])
    also have "\<dots> = (ws @ [?w]) @ collectWords s ?j []"
      by (rule IH)
    also have "\<dots> = ws @ collectWords s ?j [?w]"
      using IH [of "[?w]"] by simp
    also have "collectWords s ?j [?w] = collectWords s i []"
      using Some by (simp add: collectWords.simps [of s i "[]"])
    finally show ?thesis .
  qed
qed

lemma matchesFrom_unfold:
  "matchesFrom s i =
     (case regexExec s i of None \<Rightarrow> [] | Some m \<Rightarrow> m # matchesFrom s (fst m + length (snd m)))"
proof (cases "regexExec s i")
  case None
  then show ?thesis by (simp add: matchesFrom_def collectWords.simps [of s i])
next
  case (Some m)
  let ?w = "\<lparr>span_start = fst m, span_end = fst m + length (snd m), span_word = snd m\<rparr>"
  have "collectWords s i [] = [?w] @ collectWords s (fst m + length (snd m)) []"
    using Some collectWords_acc [of s "fst m + length (snd m)" "[?w]"]
    by (simp add: collectWords.simps [of s i "[]"])
  then show ?thesis using Some by (simp add: matchesFrom_def)
qed

lemma processTextLoop_fold: "processTextLoop s i acc = fold processWord (matchesFrom s i) acc"
proof (induction s i acc rule: processTextLoop.induct)
  case (1 s i acc)
  show ?case
  proof (cases "regexExec s i")
    case None
    then show ?thesis
      by (simp add: processTextLoop.simps [of s i] matchesFrom_unfold [of s i])
  next
    case (Some m)
    with "1.IH" [OF Some] show ?thesis
      by (simp add: processTextLoop.simps [of s i] matchesFrom_unfold [of s i])
  qed
qed

lemma regionLoop_fold:
  "regionLoop rs s i acc = fold (processRegionWord rs) (matchesFrom s i) acc"
proof (induction rs s i acc rule: regionLoop.induct)
  case (1 rs s i acc)
  show ?case
  proof (cases "regexExec s i")
    case None
    then show ?thesis
      by (simp add: regionLoop.simps [of rs s i] matchesFrom_unfold [of s i])
  next
    case (Some m)
    with "1.IH" [OF Some] show ?thesis
      by (simp add: regionLoop.simps [of rs s i] matchesFrom_unfold [of s i])
  qed
qed

lemma matchesFrom_props:
  "(idx, w) \<in> set (matchesFrom s i) \<Longrightarrow>
     i \<le> idx \<and> idx + length w \<le> length s \<and> 2 \<le> length w \<and> w = take (length w) (drop idx s)
     \<and> matchAt s idx = Some (length w)"
proof (induction "Suc (length s) - i" arbitrary: i rule: less_induct)
  case less
  show ?case
  proof (cases "regexExec s i")
    case None
    with less.prems show ?thesis by (simp add: matchesFrom_unfold [of s i])
  next
    case (Some m)
    then have m: "regexExec s i = Some (fst m, snd m)" by simp
    note here = regexExec_Some [OF m]
    from less.prems Some
    consider "(idx, w) = m" | "(idx, w) \<in> set (matchesFrom s (fst m + length (snd m)))"
      by (auto simp: matchesFrom_unfold [of s i])
    then show ?thesis
    proof cases
      case 1
      then have "idx = fst m" "w = snd m" by auto
      with here show ?thesis by simp
    next
      case 2
      from less.hyps [OF regexExec_decreases [OF Some] 2] here show ?thesis by simp
    qed
  qed
qed

subsection \<open>Verdicts and results from a consistent cache\<close>

lemma LRU_get_cache [simp]: "cache (snd (LRU_get k c)) = cache c"
  by (simp add: LRU_get_def moveToHead_def addToHead_def removeNode_def split: option.splits)

lemma LRU_get_fst [simp]: "fst (LRU_get k c) = cache c k"
  by (simp add: LRU_get_def split: option.splits)

lemma LRU_set_cache_cases:
  "cache (LRU_set k v c) k' = Some v' \<Longrightarrow> (k' = k \<and> v' = v) \<or> cache c k' = Some v'"
  by (auto simp: LRU_set_def moveToHead_def addToHead_def removeNode_def removeTail_def Let_def
      split: option.splits if_splits list.splits)

lemma isValidWord_cong: "sameDictionary st st' \<Longrightarrow> isValidWord st' = isValidWord st"
  by (auto simp: isValidWord_def sameDictionary_def fun_eq_iff)

lemma logCheck_fields [simp]:
  "dictionary (logCheck st w) = dictionary st" "customWords (logCheck st w) = customWords st"
  "checkedCache (logCheck st w) = checkedCache st" "regionCache (logCheck st w) = regionCache st"
  "currentCheckCache (logCheck st w) = currentCheckCache st"
  by (auto simp: logCheck_def split: option.splits)

lemma checkWord_hit:
  "cache (checkedCache st) w = Some v \<Longrightarrow>
     checkWord st w = (v, st\<lparr>checkedCache := snd (LRU_get w (checkedCache st))\<rparr>)"
  by (simp add: checkWord_def LRU_has_def LRU_get_def)

lemma checkWord_miss:
  "cache (checkedCache st) w = None \<Longrightarrow>
     checkWord st w =
       (isValidWord st w,
        (logCheck st w)\<lparr>checkedCache := LRU_set w (isValidWord st w) (checkedCache st)\<rparr>)"
  by (simp add: checkWord_def LRU_has_def Let_def)

lemma checkWord_same: "sameDictionary st (snd (checkWord st w))"
  by (cases "cache (checkedCache st) w")
    (simp_all add: checkWord_hit checkWord_miss sameDictionary_def)

lemma checkWord_regionCache [simp]: "regionCache (snd (checkWord st w)) = regionCache st"
  by (cases "cache (checkedCache st) w") (simp_all add: checkWord_hit checkWord_miss)

lemma checkWord_consistent:
  assumes "cacheConsistent st"
  shows "fst (checkWord st w) = isValidWord st w" and "cacheConsistent (snd (checkWord st w))"
proof -
  show "fst (checkWord st w) = isValidWord st w"
  proof (cases "cache (checkedCache st) w")
    case None
    then show ?thesis by (simp add: checkWord_miss)
  next
    case (Some v)
    with assms have "v = isValidWord st w" by (simp add: cacheConsistent_def)
    with Some show ?thesis by (simp add: checkWord_hit)
  qed
  have valid: "isValidWord (snd (checkWord st w)) = isValidWord st"
    by (rule isValidWord_cong [OF checkWord_same])
  show "cacheConsistent (snd (checkWord st w))"
    unfolding cacheConsistent_def valid
  proof (intro allI impI)
    fix k v
    assume h: "cache (checkedCache (snd (checkWord st w))) k = Some v"
    show "v = isValidWord st k"
    proof (cases "cache (checkedCache st) w")
      case None
      with h have "cache (LRU_set w (isValidWord st w) (checkedCache st)) k = Some v"
        by (simp add: checkWord_miss)
      from LRU_set_cache_cases [OF this] assms show ?thesis
        by (auto simp: cacheConsistent_def)
    next
      case (Some u)
      with h have "cache (checkedCache st) k = Some v"
        by (simp add: checkWord_hit)
      with assms show ?thesis by (simp add: cacheConsistent_def)
    qed
  qed
qed

lemma processWord_consistent:
  assumes "cacheConsistent st"
  shows "fst (processWord m (res, st)) = res @ map fullResult (invalidMatches st [m])"
    and "cacheConsistent (snd (processWord m (res, st)))"
    and "sameDictionary st (snd (processWord m (res, st)))"
proof -
  obtain idx w where m: "m = (idx, w)" by (cases m)
  obtain b st1 where cw: "checkWord st (toLowerCase w) = (b, st1)" by (cases "checkWord st (toLowerCase w)")
  from checkWord_consistent [OF assms, of "toLowerCase w"] cw
  have b: "b = isValidWord st (toLowerCase w)" and c1: "cacheConsistent st1" by auto
  from checkWord_same [of st "toLowerCase w"] cw have s1: "sameDictionary st st1" by simp
  show "fst (processWord m (res, st)) = res @ map fullResult (invalidMatches st [m])"
    using m cw b by (simp add: processWord_def invalidMatches_def fullResult_def)
  show "sameDictionary st (snd (processWord m (res, st)))"
    using m cw s1 by (simp add: processWord_def sameDictionary_def)
  have "cacheConsistent (st1\<lparr>currentCheckCache := f\<rparr>)" for f
    using c1 by (simp add: cacheConsistent_def isValidWord_def)
  then show "cacheConsistent (snd (processWord m (res, st)))"
    using m cw c1 by (simp add: processWord_def)
qed

lemma fold_processWord_consistent:
  assumes "cacheConsistent st"
  shows "fst (fold processWord ms (res, st)) = res @ map fullResult (invalidMatches st ms)
    \<and> cacheConsistent (snd (fold processWord ms (res, st)))
    \<and> sameDictionary st (snd (fold processWord ms (res, st)))"
  using assms
proof (induction ms arbitrary: res st)
  case Nil
  then show ?case by (simp add: invalidMatches_def sameDictionary_def)
next
  case (Cons m ms)
  obtain res1 st1 where step: "processWord m (res, st) = (res1, st1)"
    by (cases "processWord m (res, st)")
  from processWord_consistent [OF Cons.prems, of m res] step
  have r1: "res1 = res @ map fullResult (invalidMatches st [m])"
    and c1: "cacheConsistent st1" and s1: "sameDictionary st st1" by auto
  have v: "isValidWord st1 = isValidWord st" by (rule isValidWord_cong [OF s1])
  from Cons.IH [OF c1, of res1] step r1 v s1 show ?case
    by (auto simp: invalidMatches_def sameDictionary_def)
qed

lemma processText_consistent:
  assumes "cacheConsistent st"
  shows "fst (processText st s) = map fullResult (invalidMatches st (matchesFrom s 0))"
    and "cacheConsistent (snd (processText st s))"
    and "sameDictionary st (snd (processText st s))"
  using fold_processWord_consistent [OF assms, of "matchesFrom s 0" "[]"]
  by (simp_all add: processText_def processTextLoop_fold)

lemma processWord_regionCache [simp]:
  "regionCache (snd (processWord m (res, st))) = regionCache st"
proof -
  obtain idx w where m: "m = (idx, w)" by (cases m)
  obtain b st1 where cw: "checkWord st (toLowerCase w) = (b, st1)" by (cases "checkWord st (toLowerCase w)")
  from checkWord_regionCache [of st "toLowerCase w"] cw have "regionCache st1 = regionCache st" by simp
  then show ?thesis using m cw by (simp add: processWord_def)
qed

lemma processRegionWord_consistent:
  assumes "cacheConsistent st"
  shows "processRegionWord rs m (rw, rr, res, st) =
      (rw @ [snd m], rr @ map localResult (invalidMatches st [m]),
       res @ map (shiftResult rs \<circ> localResult) (invalidMatches st [m]),
       snd (snd (snd (processRegionWord rs m (rw, rr, res, st)))))"
    and "cacheConsistent (snd (snd (snd (processRegionWord rs m (rw, rr, res, st)))))"
    and "sameDictionary st (snd (snd (snd (processRegionWord rs m (rw, rr, res, st)))))"
    and "regionCache (snd (snd (snd (processRegionWord rs m (rw, rr, res, st))))) = regionCache st"
proof -
  obtain idx w where m: "m = (idx, w)" by (cases m)
  obtain b st1 where cw: "checkWord st (toLowerCase w) = (b, st1)" by (cases "checkWord st (toLowerCase w)")
  from checkWord_consistent [OF assms, of "toLowerCase w"] cw
  have b: "b = isValidWord st (toLowerCase w)" and c1: "cacheConsistent st1" by auto
  from checkWord_same [of st "toLowerCase w"] cw have s1: "sameDictionary st st1" by simp
  from checkWord_regionCache [of st "toLowerCase w"] cw have r1: "regionCache st1 = regionCache st" by simp
  show "processRegionWord rs m (rw, rr, res, st) =
      (rw @ [snd m], rr @ map localResult (invalidMatches st [m]),
       res @ map (shiftResult rs \<circ> localResult) (invalidMatches st [m]),
       snd (snd (snd (processRegionWord rs m (rw, rr, res, st)))))"
    using m cw b by (simp add: processRegionWord_def invalidMatches_def localResult_def Let_def)
  show "sameDictionary st (snd (snd (snd (processRegionWord rs m (rw, rr, res, st)))))"
    using m cw s1 by (simp add: processRegionWord_def sameDictionary_def Let_def)
  show "regionCache (snd (snd (snd (processRegionWord rs m (rw, rr, res, st))))) = regionCache st"
    using m cw r1 by (simp add: processRegionWord_def Let_def)
  have "cacheConsistent (st1\<lparr>currentCheckCache := f\<rparr>)" for f
    using c1 by (simp add: cacheConsistent_def isValidWord_def)
  then show "cacheConsistent (snd (snd (snd (processRegionWord rs m (rw, rr, res, st)))))"
    using m cw c1 by (simp add: processRegionWord_def Let_def)
qed

lemma fold_processRegionWord_consistent:
  assumes "cacheConsistent st"
  shows "\<exists>st'. fold (processRegionWord rs) ms (rw, rr, res, st) =
      (rw @ map snd ms, rr @ map localResult (invalidMatches st ms),
       res @ map (shiftResult rs \<circ> localResult) (invalidMatches st ms), st')
    \<and> cacheConsistent st' \<and> sameDictionary st st' \<and> regionCache st' = regionCache st"
  using assms
proof (induction ms arbitrary: rw rr res st)
  case Nil
  then show ?case by (simp add: invalidMatches_def sameDictionary_def)
next
  case (Cons m ms)
  let ?st1 = "snd (snd (snd (processRegionWord rs m (rw, rr, res, st))))"
  note step = processRegionWord_consistent [OF Cons.prems, of rs m rw rr res]
  have v: "isValidWord ?st1 = isValidWord st" by (rule isValidWord_cong [OF step(3)])
  from Cons.IH [OF step(2), of "rw @ [snd m]" "rr @ map localResult (invalidMatches st [m])"
      "res @ map (shiftResult rs \<circ> localResult) (invalidMatches st [m])"]
  obtain st' where
    f: "fold (processRegionWord rs) ms
          (rw @ [snd m], rr @ map localResult (invalidMatches st [m]),
           res @ map (shiftResult rs \<circ> localResult) (invalidMatches st [m]), ?st1) =
        ((rw @ [snd m]) @ map snd ms,
         (rr @ map localResult (invalidMatches st [m])) @ map localResult (invalidMatches ?st1 ms),
         (res @ map (shiftResult rs \<circ> localResult) (invalidMatches st [m])) @
           map (shiftResult rs \<circ> localResult) (invalidMatches ?st1 ms), st')"
    and c: "cacheConsistent st'" and s: "sameDictionary ?st1 st'"
    and r: "regionCache st' = regionCache ?st1"
    by blast
  have inv: "invalidMatches ?st1 ms = invalidMatches st ms" by (simp add: invalidMatches_def v)
  have split: "invalidMatches st (m # ms) = invalidMatches st [m] @ invalidMatches st ms"
    by (simp add: invalidMatches_def)
  have "fold (processRegionWord rs) (m # ms) (rw, rr, res, st) =
      (rw @ map snd (m # ms), rr @ map localResult (invalidMatches st (m # ms)),
       res @ map (shiftResult rs \<circ> localResult) (invalidMatches st (m # ms)), st')"
    using f step(1) by (simp add: inv split)
  moreover have "sameDictionary st st'" using s step(3) by (simp add: sameDictionary_def)
  moreover have "regionCache st' = regionCache st" using r step(4) by simp
  ultimately show ?case using c by blast
qed

lemma cacheConsistent_regionCache [simp]:
  "cacheConsistent (st\<lparr>regionCache := rc\<rparr>) = cacheConsistent st"
  by (simp add: cacheConsistent_def isValidWord_def)

lemma sameDictionary_regionCache [simp]:
  "sameDictionary st (st'\<lparr>regionCache := rc\<rparr>) = sameDictionary st st'"
  "sameDictionary (st\<lparr>regionCache := rc\<rparr>) st' = sameDictionary st st'"
  by (simp_all add: sameDictionary_def)

lemma invalidMatches_regionCache [simp]:
  "invalidMatches (st\<lparr>regionCache := rc\<rparr>) = invalidMatches st"
  by (simp add: invalidMatches_def isValidWord_def fun_eq_iff)

lemma recomputeRegion_consistent:
  assumes "cacheConsistent st"
  shows "\<exists>st'. recomputeRegion r (res, st) =
      (res @ map (shiftResult (region_start r) \<circ> localResult)
                (invalidMatches st (matchesFrom (region_text r) 0)), st')
    \<and> cacheConsistent st' \<and> sameDictionary st st'
    \<and> regionCache st' =
        LRU_set (region_start r, region_end r)
          \<lparr>entry_words = map snd (matchesFrom (region_text r) 0),
           entry_results = map localResult (invalidMatches st (matchesFrom (region_text r) 0))\<rparr>
          (regionCache st)"
proof -
  from fold_processRegionWord_consistent [OF assms, of "region_start r"
      "matchesFrom (region_text r) 0" "[]" "[]" res]
  obtain st1 where
    f: "fold (processRegionWord (region_start r)) (matchesFrom (region_text r) 0) ([], [], res, st) =
        (map snd (matchesFrom (region_text r) 0),
         map localResult (invalidMatches st (matchesFrom (region_text r) 0)),
         res @ map (shiftResult (region_start r) \<circ> localResult)
                 (invalidMatches st (matchesFrom (region_text r) 0)), st1)"
    and c: "cacheConsistent st1" and s: "sameDictionary st st1"
    and rc: "regionCache st1 = regionCache st"
    by auto
  show ?thesis
    using f c s rc by (simp add: recomputeRegion_def regionLoop_fold)
qed

lemma processRegion_unfold:
  "processRegion r (res, st) =
     (case cache (regionCache st) (region_start r, region_end r) of
        None \<Rightarrow>
          recomputeRegion r
            (res, st\<lparr>regionCache := snd (LRU_get (region_start r, region_end r) (regionCache st))\<rparr>)
      | Some e \<Rightarrow>
          if concat (entry_words e) = filter (\<lambda>c. \<not> isSpace c) (region_text r)
          then (res @ map (shiftResult (region_start r)) (entry_results e),
                st\<lparr>regionCache := snd (LRU_get (region_start r, region_end r) (regionCache st))\<rparr>)
          else recomputeRegion r
                 (res, st\<lparr>regionCache := snd (LRU_get (region_start r, region_end r) (regionCache st))\<rparr>))"
  by (simp add: processRegion_def LRU_get_def regionCacheValid_def useCachedRegion_def
      split: option.splits)

lemma processRegion_uninitialized:
  assumes "dictionary st = None" and "cacheConsistent st" and "regionCacheClean st"
  shows "fst (processRegion r (res, st)) = res"
    and "dictionary (snd (processRegion r (res, st))) = None"
    and "cacheConsistent (snd (processRegion r (res, st)))"
    and "regionCacheClean (snd (processRegion r (res, st)))"
proof -
  let ?key = "(region_start r, region_end r)"
  let ?st0 = "st\<lparr>regionCache := snd (LRU_get ?key (regionCache st))\<rparr>"
  have none: "invalidMatches st ms = []" for ms
    using assms(1) by (simp add: invalidMatches_def isValidWord_def)
  have c0: "cacheConsistent ?st0" using assms(2) by simp
  have clean0: "regionCacheClean ?st0" using assms(3) by (simp add: regionCacheClean_def)
  from recomputeRegion_consistent [OF c0, of r res]
  obtain st' where
    rec: "recomputeRegion r (res, ?st0) = (res, st')"
    and c': "cacheConsistent st'" and s': "sameDictionary st st'"
    and rc': "regionCache st' =
        LRU_set ?key \<lparr>entry_words = map snd (matchesFrom (region_text r) 0), entry_results = []\<rparr>
          (regionCache ?st0)"
    by (auto simp: none)
  have clean': "regionCacheClean st'"
    unfolding regionCacheClean_def rc'
  proof (intro allI impI)
    fix k e
    assume "cache (LRU_set ?key \<lparr>entry_words = map snd (matchesFrom (region_text r) 0),
      entry_results = []\<rparr> (regionCache ?st0)) k = Some e"
    from LRU_set_cache_cases [OF this] clean0 show "entry_results e = []"
      unfolding regionCacheClean_def by fastforce
  qed
  have d': "dictionary st' = None" using s' assms(1) by (simp add: sameDictionary_def)
  have cases: "processRegion r (res, st) = (res, ?st0) \<or> processRegion r (res, st) = (res, st')"
  proof (cases "cache (regionCache st) ?key")
    case None
    then show ?thesis using rec by (simp add: processRegion_unfold)
  next
    case (Some e)
    with assms(3) have "entry_results e = []" by (simp add: regionCacheClean_def)
    with Some rec show ?thesis by (simp add: processRegion_unfold)
  qed
  then show "fst (processRegion r (res, st)) = res" by auto
  from cases show "dictionary (snd (processRegion r (res, st))) = None"
    using d' assms(1) by auto
  from cases show "cacheConsistent (snd (processRegion r (res, st)))"
    using c0 c' by auto
  from cases show "regionCacheClean (snd (processRegion r (res, st)))"
    using clean0 clean' by auto
qed

lemma fold_processRegion_uninitialized:
  assumes "dictionary st = None" and "cacheConsistent st" and "regionCacheClean st"
  shows "fst (fold processRegion rs (res, st)) = res"
  using assms
proof (induction rs arbitrary: st)
  case Nil
  then show ?case by simp
next
  case (Cons r rs)
  obtain res1 st1 where step: "processRegion r (res, st) = (res1, st1)"
    by (cases "processRegion r (res, st)")
  from processRegion_uninitialized [OF Cons.prems, of r res] step
  have "res1 = res" "dictionary st1 = None" "cacheConsistent st1" "regionCacheClean st1" by auto
  with Cons.IH [of st1] step show ?case by simp
qed

subsection \<open>Incremental check against full check\<close>

text \<open>
  C1. The base text \<open>img2\<close> is edited into \<open>img2png\<close> by appending \<open>png\<close>. The new text
  has no match of the word pattern (no word boundary separates a letter from the digit),
  so the full check reports nothing. The region computed for the edit is \<open>[4,7)\<close> with
  text \<open>png\<close>; checked on its own, that text is one word, and the incremental check
  reports \<open>png\<close> at \<open>[4,7)\<close>.

  A region that is aligned to a word of the new text can differ as well: \<open>1'ab\<close> is
  edited into \<open>1'abc\<close>, whose only word is \<open>'abc\<close> at \<open>[1,5)\<close>, reported by the full
  check; the region is \<open>[1,5)\<close>, and on its text \<open>'abc\<close> alone the pattern finds \<open>abc\<close>,
  which the incremental check reports at \<open>[2,5)\<close>.
\<close>

theorem incremental_differs_from_full:
  "calculateIncrementalCheckRegions ''img2'' ''img2png'' 2
     = [\<lparr>region_start = 4, region_end = 7, region_text = ''png''\<rparr>]
   \<and> fst (processIncrementalText readyWorker ''img2png''
            (calculateIncrementalCheckRegions ''img2'' ''img2png'' 2))
     = [\<lparr>word = ''png'', start = 4, endpos = 7, isCorrect = Some False\<rparr>]
   \<and> fst (processText readyWorker ''img2png'') = []
   \<and> calculateIncrementalCheckRegions ''1'ab'' ''1'abc'' 2
     = [\<lparr>region_start = 1, region_end = 5, region_text = CHR 0x27 # ''abc''\<rparr>]
   \<and> fst (processIncrementalText readyWorker ''1'abc''
            (calculateIncrementalCheckRegions ''1'ab'' ''1'abc'' 2))
     = [\<lparr>word = ''abc'', start = 2, endpos = 5, isCorrect = Some False\<rparr>]
   \<and> fst (processText readyWorker ''1'abc'')
     = [\<lparr>word = CHR 0x27 # ''abc'', start = 1, endpos = 5, isCorrect = None\<rparr>]"
  by code_simp

subsection \<open>CustomDictionary.addWord\<close>

text \<open>
  C10. \<open>addWord\<close> returns false and changes nothing when its argument is not a non-empty
  string, when the lowercased and trimmed word has fewer than two characters, or when the
  set is full and lacks the word. When it returns true, the argument is a string whose
  lowercased and trimmed form was not in the set and is now its newest member, the other
  members being as before.
\<close>

theorem addWord_contract:
  "((v = JNotString \<or> v = JString [] \<or> length (normalizedOf v) < 2
      \<or> (maxWords d \<le> int (length (dwords d)) \<and> normalizedOf v \<notin> set (dwords d)))
     \<longrightarrow> addWord v d = (False, d))
   \<and> (fst (addWord v d)
     \<longrightarrow> v \<noteq> JNotString \<and> normalizedOf v \<notin> set (dwords d)
         \<and> dwords (snd (addWord v d)) = dwords d @ [normalizedOf v])"
proof (cases v)
  case JNotString
  then show ?thesis by (simp add: addWord_def)
next
  case (JString w)
  then show ?thesis
    by (auto simp: addWord_def normalizedOf_def Let_def setAdd_def postToWorker_def
        saveToStorage_def)
qed

theorem addWord_contract_witness:
  "addWord (JString '' A '') sampleDictionary = (False, sampleDictionary)
   \<and> fst (addWord (JString '' Helo '') sampleDictionary)
   \<and> dwords (snd (addWord (JString '' Helo '') sampleDictionary)) = [''hello'', ''helo'']"
proof -
  have short: "length (normalizedOf (JString '' A '')) < 2"
    by code_simp
  have added: "fst (addWord (JString '' Helo '') sampleDictionary)"
    by code_simp
  have norm: "normalizedOf (JString '' Helo '') = ''helo''"
    by code_simp
  from addWord_contract [of "JString '' A ''" sampleDictionary] short
  have "addWord (JString '' A '') sampleDictionary = (False, sampleDictionary)"
    by blast
  moreover from addWord_contract [of "JString '' Helo ''" sampleDictionary] added norm
  have "dwords (snd (addWord (JString '' Helo '') sampleDictionary)) = [''hello'', ''helo'']"
    by (simp add: sampleDictionary_def)
  ultimately show ?thesis using added by simp
qed

subsection \<open>Region merge\<close>








subsection \<open>Uninitialized dictionary\<close>

text \<open>
  C5. While \<open>dictionary\<close> is \<open>null\<close>, a full check and an incremental check that start
  from an empty word cache and an empty region cache report no invalid word, whatever the
  text, the regions and the custom words are.
\<close>

theorem uninitialized_dictionary_flags_nothing:
  assumes "dictionary st = None"
    and "cache (checkedCache st) = Map.empty"
    and "cache (regionCache st) = Map.empty"
  shows "fst (processText st fullText) = [] \<and> fst (processIncrementalText st fullText regions) = []"
proof -
  have c: "cacheConsistent st" using assms(2) by (simp add: cacheConsistent_def)
  have r: "regionCacheClean st" using assms(3) by (simp add: regionCacheClean_def)
  have none: "invalidMatches st ms = []" for ms
    using assms(1) by (simp add: invalidMatches_def isValidWord_def)
  have full: "fst (processText st fullText) = []"
    using processText_consistent(1) [OF c] by (simp add: none)
  let ?st = "st\<lparr>currentCheckCache := Map.empty\<rparr>"
  have "dictionary ?st = None" "cacheConsistent ?st" "regionCacheClean ?st"
    using assms(1) c r by (simp_all add: cacheConsistent_def regionCacheClean_def isValidWord_def)
  from fold_processRegion_uninitialized [OF this]
  have "fst (processIncrementalText st fullText regions) = []"
    by (simp add: processIncrementalText_def)
  with full show ?thesis by simp
qed

theorem uninitialized_dictionary_flags_nothing_witness:
  "fst (processText initialWorker ''helo wrold'') = []
   \<and> fst (processIncrementalText initialWorker ''helo wrold''
           [\<lparr>region_start = 0, region_end = 10, region_text = ''helo wrold''\<rparr>]) = []"
  using uninitialized_dictionary_flags_nothing [of initialWorker "''helo wrold''"
      "[\<lparr>region_start = 0, region_end = 10, region_text = ''helo wrold''\<rparr>]"]
  by (simp add: initialWorker_def newLRUCache_def)

subsection \<open>Entries of a full check\<close>

lemma processWord_results_subset:
  "set (fst (processWord m (res, st))) \<subseteq> set res \<union> {fullResult m}"
  by (cases m) (auto simp: processWord_def fullResult_def split: prod.splits if_splits)

lemma fold_processWord_subset:
  "set (fst (fold processWord ms (res, st))) \<subseteq> set res \<union> fullResult ` set ms"
proof (induction ms arbitrary: res st)
  case Nil
  then show ?case by simp
next
  case (Cons m ms)
  obtain res1 st1 where step: "processWord m (res, st) = (res1, st1)"
    by (cases "processWord m (res, st)")
  from processWord_results_subset [of m res st] step
  have "set res1 \<subseteq> set res \<union> {fullResult m}" by simp
  with Cons.IH [of res1 st1] step show ?case by auto
qed

lemma slice_take_drop:
  "i + n \<le> length s \<Longrightarrow> slice s (int i) (int i + int n) = take n (drop i s)"
  by (simp add: slice_def Let_def min_def)

lemma isClassChar_not_digit: "isClassChar c \<Longrightarrow> \<not> isDigit c"
  by (auto simp: isClassChar_def isLetter_def isDigit_def)

text \<open>
  C8, as the code has it. Every entry of a full check satisfies \<open>end = start + length word\<close>
  and \<open>text[start:end] = word\<close>; the word has at least two characters, all of them letters
  or apostrophes and none a digit, and it starts and ends at a word boundary of the text.
\<close>

theorem processText_entries:
  assumes "r \<in> set (fst (processText st fullText))"
  shows "0 \<le> start r \<and> endpos r = start r + int (length (word r))
    \<and> endpos r \<le> int (length fullText)
    \<and> slice fullText (start r) (endpos r) = word r
    \<and> 2 \<le> length (word r)
    \<and> list_all isClassChar (word r)
    \<and> list_all (\<lambda>c. \<not> isDigit c) (word r)
    \<and> wordBoundary fullText (nat (start r))
    \<and> wordBoundary fullText (nat (endpos r))"
proof -
  from assms fold_processWord_subset [of "matchesFrom fullText 0" "[]" st]
  obtain m where m: "m \<in> set (matchesFrom fullText 0)" and r: "r = fullResult m"
    by (auto simp: processText_def processTextLoop_fold)
  obtain idx w where mw: "m = (idx, w)" by (cases m)
  from matchesFrom_props [of idx w fullText 0] m mw
  have len: "idx + length w \<le> length fullText" and two: "2 \<le> length w"
    and w: "w = take (length w) (drop idx fullText)" and at: "matchAt fullText idx = Some (length w)"
    by auto
  from matchAt_Some(3,4,5) [OF at] w
  have wb: "wordBoundary fullText idx" "wordBoundary fullText (idx + length w)"
    and cls: "\<forall>c \<in> set w. isClassChar c"
    by auto
  have fields: "word r = w" "start r = int idx" "endpos r = int idx + int (length w)"
    using r mw by (simp_all add: fullResult_def)
  have sl: "slice fullText (start r) (endpos r) = word r"
    using slice_take_drop [OF len] w fields by simp
  have nat_end: "nat (endpos r) = idx + length w" using fields by simp
  have "list_all isClassChar (word r)" using cls fields by (simp add: list_all_iff)
  moreover have "list_all (\<lambda>c. \<not> isDigit c) (word r)"
    using cls fields by (auto simp: list_all_iff dest: isClassChar_not_digit)
  ultimately show ?thesis
    using fields len two sl wb nat_end by simp
qed

lemma helo_wrold_full:
  "fst (processText readyWorker ''helo wrold'')
     = [\<lparr>word = ''helo'', start = 0, endpos = 4, isCorrect = None\<rparr>,
        \<lparr>word = ''wrold'', start = 5, endpos = 10, isCorrect = None\<rparr>]"
  by code_simp

theorem processText_entries_witness:
  "slice ''helo wrold'' 5 10 = ''wrold'' \<and> list_all isClassChar ''wrold''
   \<and> wordBoundary ''helo wrold'' 5 \<and> wordBoundary ''helo wrold'' 10"
  using processText_entries [of "\<lparr>word = ''wrold'', start = 5, endpos = 10, isCorrect = None\<rparr>"
      readyWorker "''helo wrold''"] helo_wrold_full
  by simp

text \<open>
  C8, as stated, fails: in the text \<open>'helo' 1''1\<close> the entry \<open>helo\<close> at \<open>[1,5)\<close> is not a
  maximal run of letters and apostrophes (the run is \<open>'helo'\<close>), and the entry at \<open>[8,10)\<close>
  is the token of two apostrophes between the digits.
\<close>

theorem processText_not_maximal_run:
  "fst (processText readyWorker
          ([CHR 0x27] @ ''helo'' @ [CHR 0x27] @ '' 1'' @ [CHR 0x27, CHR 0x27] @ ''1''))
     = [\<lparr>word = ''helo'', start = 1, endpos = 5, isCorrect = None\<rparr>,
        \<lparr>word = [CHR 0x27, CHR 0x27], start = 8, endpos = 10, isCorrect = None\<rparr>]
   \<and> \<not> isMaximalRun ([CHR 0x27] @ ''helo'' @ [CHR 0x27] @ '' 1'' @ [CHR 0x27, CHR 0x27] @ ''1'') 1 5
   \<and> filter isLetter [CHR 0x27, CHR 0x27] = []"
  by code_simp

subsection \<open>LRU eviction order\<close>

lemma LRU_set_capacity [simp]: "capacity (LRU_set k v c) = capacity c"
  by (simp add: LRU_set_def moveToHead_def addToHead_def removeNode_def removeTail_def Let_def
      split: option.splits list.splits)

lemma LRU_get_capacity [simp]: "capacity (snd (LRU_get k c)) = capacity c"
  by (simp add: LRU_get_def moveToHead_def addToHead_def removeNode_def split: option.splits)

lemma LRU_get_sizeL [simp]: "sizeL (snd (LRU_get k c)) = sizeL c"
  by (simp add: LRU_get_def moveToHead_def addToHead_def removeNode_def split: option.splits)

lemma LRU_get_chain:
  "chain (snd (LRU_get k c)) = (if cache c k = None then chain c else k # remove1 k (chain c))"
  by (simp add: LRU_get_def moveToHead_def addToHead_def removeNode_def split: option.splits)

lemma LRU_set_new:
  assumes "cache c k = None"
  shows "chain (LRU_set k v c) = (if capacity c < sizeL c + 1 then butlast (k # chain c) else k # chain c)"
    and "cache (LRU_set k v c) =
           (if capacity c < sizeL c + 1 then ((cache c)(k \<mapsto> v))(last (k # chain c) := None)
            else (cache c)(k \<mapsto> v))"
    and "sizeL (LRU_set k v c) = (if capacity c < sizeL c + 1 then sizeL c else sizeL c + 1)"
  using assms
  by (simp_all add: LRU_set_def addToHead_def removeTail_def Let_def)

lemma LRU_set_existing:
  assumes "cache c k = Some u"
  shows "chain (LRU_set k v c) = k # remove1 k (chain c)"
    and "cache (LRU_set k v c) = (cache c)(k \<mapsto> v)"
    and "sizeL (LRU_set k v c) = sizeL c"
  using assms
  by (simp_all add: LRU_set_def moveToHead_def addToHead_def removeNode_def)

lemma set_butlast_distinct:
  assumes "distinct xs" and "xs \<noteq> []"
  shows "set (butlast xs) = set xs - {last xs}"
proof -
  from assms(2) have xs: "xs = butlast xs @ [last xs]" by simp
  with assms(1) have "last xs \<notin> set (butlast xs)"
    by (metis distinct_append disjoint_insert(1) list.set(2))
  moreover have "set xs = insert (last xs) (set (butlast xs))"
    by (subst xs) simp
  ultimately show ?thesis by auto
qed

lemma lru_ok_new [simp]: "lru_ok (newLRUCache cap)"
  by (simp add: lru_ok_def newLRUCache_def)

lemma lru_ok_clear [simp]: "lru_ok (LRU_clear c)"
  by (simp add: lru_ok_def LRU_clear_def)

lemma lru_ok_get: "lru_ok c \<Longrightarrow> lru_ok (snd (LRU_get k c))"
  by (auto simp: lru_ok_def LRU_get_chain length_remove1 dest: in_set_remove1)
     (metis Suc_pred domI length_pos_if_in_set)

lemma lru_ok_set:
  assumes "lru_ok c"
  shows "lru_ok (LRU_set k v c)"
proof (cases "cache c k")
  case (Some u)
  with assms have "k \<in> set (chain c)" by (auto simp: lru_ok_def)
  then have "length (remove1 k (chain c)) + 1 = length (chain c)"
    by (simp add: length_remove1) (metis Suc_pred length_pos_if_in_set)
  with assms Some show ?thesis
    by (auto simp: lru_ok_def LRU_set_existing dest: in_set_remove1)
next
  case None
  with assms have notin: "k \<notin> set (chain c)" by (auto simp: lru_ok_def)
  show ?thesis
  proof (cases "capacity c < sizeL c + 1")
    case False
    with None assms notin show ?thesis by (auto simp: lru_ok_def LRU_set_new)
  next
    case True
    have d: "distinct (k # chain c)" using assms notin by (simp add: lru_ok_def)
    have "set (butlast (k # chain c)) = set (k # chain c) - {last (k # chain c)}"
      using d by (rule set_butlast_distinct) simp
    moreover have "dom (((cache c)(k \<mapsto> v))(last (k # chain c) := None))
        = insert k (dom (cache c)) - {last (k # chain c)}" by auto
    moreover have "distinct (butlast (k # chain c))" using d by (rule distinct_butlast)
    ultimately show ?thesis
      using None True assms by (auto simp: lru_ok_def LRU_set_new)
  qed
qed

lemma insertAll_fresh:
  assumes "lru_ok c" and "distinct (map fst kvs)" and "fst ` set kvs \<inter> dom (cache c) = {}"
    and "sizeL c + int (length kvs) \<le> capacity c"
  shows "chain (insertAll kvs c) = rev (map fst kvs) @ chain c
    \<and> dom (cache (insertAll kvs c)) = dom (cache c) \<union> fst ` set kvs
    \<and> sizeL (insertAll kvs c) = sizeL c + int (length kvs)
    \<and> capacity (insertAll kvs c) = capacity c \<and> lru_ok (insertAll kvs c)"
  using assms
proof (induction kvs arbitrary: c)
  case Nil
  then show ?case by (simp add: insertAll_def)
next
  case (Cons kv kvs)
  let ?c1 = "LRU_set (fst kv) (snd kv) c"
  from Cons.prems have none: "cache c (fst kv) = None" by auto
  from Cons.prems have room: "\<not> capacity c < sizeL c + 1" by simp
  have ch: "chain ?c1 = fst kv # chain c" and ca: "cache ?c1 = (cache c)(fst kv \<mapsto> snd kv)"
    and sz: "sizeL ?c1 = sizeL c + 1"
    using LRU_set_new [OF none, of "snd kv"] room by simp_all
  have ok1: "lru_ok ?c1" by (rule lru_ok_set [OF Cons.prems(1)])
  have d1: "distinct (map fst kvs)" using Cons.prems(2) by simp
  have fresh1: "fst ` set kvs \<inter> dom (cache ?c1) = {}"
    using Cons.prems(2,3) by (auto simp: ca)
  have room1: "sizeL ?c1 + int (length kvs) \<le> capacity ?c1"
    using Cons.prems(4) by (simp add: sz)
  from Cons.IH [OF ok1 d1 fresh1 room1]
  show ?case by (auto simp: insertAll_def ch ca sz)
qed

lemma last_after_touch:
  assumes "distinct (a # b # rest)" and "k \<in> set (a # b # rest)"
  shows "last (k # remove1 k (rev (a # b # rest))) = (if k = a then b else a)"
proof (cases "k = a")
  case True
  with assms(1) have "remove1 k (rev (a # b # rest)) = rev rest @ [b]"
    by (simp add: remove1_append)
  then show ?thesis using True by simp
next
  case False
  with assms(2) have "k \<in> set (rev rest @ [b])" by auto
  then have "remove1 k (rev (a # b # rest)) = remove1 k (rev rest @ [b]) @ [a]"
    using remove1_append [of k "rev rest @ [b]" "[a]"] by simp
  then show ?thesis using False by simp
qed

lemma insertAll_new:
  assumes "distinct (map fst kvs)" and "int (length kvs) \<le> cap"
  shows "chain (insertAll kvs (newLRUCache cap)) = rev (map fst kvs)"
    and "dom (cache (insertAll kvs (newLRUCache cap))) = fst ` set kvs"
    and "sizeL (insertAll kvs (newLRUCache cap)) = int (length kvs)"
    and "capacity (insertAll kvs (newLRUCache cap)) = cap"
    and "lru_ok (insertAll kvs (newLRUCache cap))"
  using insertAll_fresh [of "newLRUCache cap" kvs] assms
  by (simp_all add: newLRUCache_def lru_ok_def)

text \<open>
  C6, as the code has it. Into a new cache of capacity \<open>cap\<close>, \<open>cap\<close> distinct keys are
  inserted and then one more: exactly the first key inserted is evicted. When \<open>cap\<close> is at
  least two and one of the \<open>cap\<close> keys is read with \<open>get\<close> before the last insertion, that
  key stays and the oldest of the other keys is evicted: the second key inserted if the
  key read was the first, and the first otherwise.
\<close>

theorem LRU_eviction_order:
  assumes "distinct (map fst kvs)" and "int (length kvs) = cap" and "k' \<notin> fst ` set kvs"
  shows "dom (cache (insertAll (kvs @ [(k', v')]) (newLRUCache cap))) = fst ` set (tl (kvs @ [(k', v')]))
    \<and> (2 \<le> cap \<and> k \<in> fst ` set kvs \<longrightarrow>
         k \<in> dom (cache (LRU_set k' v' (snd (LRU_get k (insertAll kvs (newLRUCache cap))))))
         \<and> dom (cache (LRU_set k' v' (snd (LRU_get k (insertAll kvs (newLRUCache cap))))))
             = insert k' (fst ` set kvs)
               - {if k = fst (hd kvs) then fst (kvs ! 1) else fst (hd kvs)})"
proof -
  let ?c = "insertAll kvs (newLRUCache cap)"
  let ?keys = "map fst kvs"
  note full = insertAll_new [OF assms(1), of cap]
  have le: "int (length kvs) \<le> cap" using assms(2) by simp
  have ch: "chain ?c = rev ?keys" and dm: "dom (cache ?c) = fst ` set kvs"
    and sz: "sizeL ?c = cap" and cp: "capacity ?c = cap" and ok: "lru_ok ?c"
    using full [OF le] assms(2) by simp_all
  have none: "cache ?c k' = None" using assms(3) dm by auto
  have part1: "dom (cache (insertAll (kvs @ [(k', v')]) (newLRUCache cap)))
      = fst ` set (tl (kvs @ [(k', v')]))"
  proof -
    have "insertAll (kvs @ [(k', v')]) (newLRUCache cap) = LRU_set k' v' ?c"
      by (simp add: insertAll_def)
    moreover have "dom (cache (LRU_set k' v' ?c)) = insert k' (dom (cache ?c)) - {last (k' # chain ?c)}"
      using LRU_set_new(2) [OF none, of v'] sz cp by auto
    moreover have "insert k' (fst ` set kvs) - {last (k' # rev ?keys)} = fst ` set (tl (kvs @ [(k', v')]))"
    proof (cases kvs)
      case Nil
      then show ?thesis by simp
    next
      case (Cons kv rest)
      with assms(1,3) have "fst kv \<notin> fst ` set rest" "k' \<noteq> fst kv" by auto
      have l: "last (k' # rev (map fst kvs)) = fst kv" using Cons by simp
      have "insert k' (fst ` set kvs) - {fst kv} = insert k' (fst ` set rest)"
        using Cons \<open>fst kv \<notin> fst ` set rest\<close> \<open>k' \<noteq> fst kv\<close> by (simp add: insert_Diff_if)
      moreover have "fst ` set (tl (kvs @ [(k', v')])) = insert k' (fst ` set rest)"
        using Cons by simp
      ultimately show ?thesis using l by simp
    qed
    ultimately show ?thesis by (simp add: ch dm)
  qed
  have part2: "k \<in> dom (cache (LRU_set k' v' (snd (LRU_get k ?c))))
      \<and> dom (cache (LRU_set k' v' (snd (LRU_get k ?c))))
          = insert k' (fst ` set kvs) - {if k = fst (hd kvs) then fst (kvs ! 1) else fst (hd kvs)}"
    if cap2: "2 \<le> cap" and kin: "k \<in> fst ` set kvs"
  proof -
    let ?c2 = "snd (LRU_get k ?c)"
    from kin dm obtain u where some: "cache ?c k = Some u" by auto
    have ch2: "chain ?c2 = k # remove1 k (rev ?keys)" using some by (simp add: LRU_get_chain ch)
    have none2: "cache ?c2 k' = None" using none by simp
    have dom3: "dom (cache (LRU_set k' v' ?c2)) = insert k' (fst ` set kvs) - {last (k' # chain ?c2)}"
      using LRU_set_new(2) [OF none2, of v'] sz cp dm by auto
    obtain kv1 kv2 rest where kvs: "kvs = kv1 # kv2 # rest"
      using cap2 assms(2) by (cases kvs; cases "tl kvs") auto
    have "last (k # remove1 k (rev (fst kv1 # fst kv2 # map fst rest)))
        = (if k = fst kv1 then fst kv2 else fst kv1)"
      using assms(1) kvs kin by (intro last_after_touch) auto
    then have lastk: "last (k' # chain ?c2) = (if k = fst kv1 then fst kv2 else fst kv1)"
      unfolding ch2 using kvs by simp
    have "k \<noteq> (if k = fst kv1 then fst kv2 else fst kv1)"
      using assms(1) kvs by auto
    with dom3 lastk kin assms(3) kvs show ?thesis by auto
  qed
  from part1 part2 show ?thesis by blast
qed

theorem LRU_eviction_order_witness:
  "dom (cache (insertAll [(''a'', 1::nat), (''b'', 2), (''c'', 3)] (newLRUCache 2))) = {''b'', ''c''}
   \<and> dom (cache (LRU_set ''c'' (3::nat) (snd (LRU_get ''a'' (insertAll [(''a'', 1), (''b'', 2)] (newLRUCache 2))))))
       = {''a'', ''c''}"
  using LRU_eviction_order [of "[(''a'', 1::nat), (''b'', 2)]" 2 "''c''" 3 "''a''"]
  by auto

text \<open>
  C6, as stated, fails for capacity one: the only key is read with \<open>get\<close>, and the next
  insertion evicts it all the same.
\<close>

theorem LRU_capacity_one_evicts_read_key:
  "fst (LRU_get ''a'' (LRU_set ''a'' (1::nat) (newLRUCache 1))) = Some 1
   \<and> cache (LRU_set ''b'' 2 (snd (LRU_get ''a'' (LRU_set ''a'' (1::nat) (newLRUCache 1))))) ''a'' = None
   \<and> cache (LRU_set ''b'' 2 (snd (LRU_get ''a'' (LRU_set ''a'' (1::nat) (newLRUCache 1))))) ''b'' = Some 2"
  by code_simp

subsection \<open>Region cache\<close>

lemma LRU_set_lookup:
  assumes "lru_ok c" and "1 \<le> capacity c"
  shows "cache (LRU_set k v c) k = Some v"
proof (cases "cache c k")
  case (Some u)
  then show ?thesis by (simp add: LRU_set_existing)
next
  case None
  show ?thesis
  proof (cases "capacity c < sizeL c + 1")
    case False
    with None show ?thesis by (simp add: LRU_set_new)
  next
    case True
    with assms have "chain c \<noteq> []" by (auto simp: lru_ok_def)
    then have "last (k # chain c) \<in> set (chain c)" by simp
    moreover from None assms(1) have "k \<notin> set (chain c)" by (auto simp: lru_ok_def)
    ultimately have "last (k # chain c) \<noteq> k" by metis
    with None True show ?thesis by (simp add: LRU_set_new)
  qed
qed

lemma processRegionWord_words:
  "fst (processRegionWord rs m (rw, rr, res, st)) = rw @ [snd m]"
  "regionCache (snd (snd (snd (processRegionWord rs m (rw, rr, res, st))))) = regionCache st"
proof -
  obtain idx w where m: "m = (idx, w)" by (cases m)
  obtain b st1 where cw: "checkWord st (toLowerCase w) = (b, st1)"
    by (cases "checkWord st (toLowerCase w)")
  from checkWord_regionCache [of st "toLowerCase w"] cw have r1: "regionCache st1 = regionCache st"
    by simp
  show "fst (processRegionWord rs m (rw, rr, res, st)) = rw @ [snd m]"
    using m cw by (simp add: processRegionWord_def Let_def)
  show "regionCache (snd (snd (snd (processRegionWord rs m (rw, rr, res, st))))) = regionCache st"
    using m cw r1 by (simp add: processRegionWord_def Let_def)
qed

lemma fold_processRegionWord_words:
  "fst (fold (processRegionWord rs) ms (rw, rr, res, st)) = rw @ map snd ms
   \<and> regionCache (snd (snd (snd (fold (processRegionWord rs) ms (rw, rr, res, st))))) = regionCache st"
proof (induction ms arbitrary: rw rr res st)
  case Nil
  then show ?case by simp
next
  case (Cons m ms)
  obtain rw1 rr1 res1 st1 where step: "processRegionWord rs m (rw, rr, res, st) = (rw1, rr1, res1, st1)"
    by (cases "processRegionWord rs m (rw, rr, res, st)") auto
  from processRegionWord_words [of rs m rw rr res st] step
  have "rw1 = rw @ [snd m]" "regionCache st1 = regionCache st" by simp_all
  with Cons.IH [of rw1 rr1 res1 st1] step show ?case by simp
qed

lemma recomputeRegion_stores:
  assumes "lru_ok (regionCache st)" and "1 \<le> capacity (regionCache st)"
  shows "\<exists>e. cache (regionCache (snd (recomputeRegion r (res, st)))) (region_start r, region_end r) = Some e
    \<and> entry_words e = wordsOf (region_text r)"
proof -
  let ?f = "fold (processRegionWord (region_start r)) (matchesFrom (region_text r) 0) ([], [], res, st)"
  obtain rw rr res1 st1 where f: "?f = (rw, rr, res1, st1)" by (cases ?f) auto
  from fold_processRegionWord_words [of "region_start r" "matchesFrom (region_text r) 0" "[]" "[]" res st] f
  have rw: "rw = wordsOf (region_text r)" and rc: "regionCache st1 = regionCache st"
    by (simp_all add: wordsOf_def)
  have "cache (LRU_set (region_start r, region_end r) \<lparr>entry_words = rw, entry_results = rr\<rparr>
      (regionCache st)) (region_start r, region_end r) = Some \<lparr>entry_words = rw, entry_results = rr\<rparr>"
    by (rule LRU_set_lookup [OF assms])
  then show ?thesis
    using f rw rc by (simp add: recomputeRegion_def regionLoop_fold)
qed

text \<open>
  C4, as the code has it. Once a region has been computed and stored under its key, a
  later region with the same key uses the stored results if and only if its text, with
  all whitespace removed, equals the concatenation of the words that were found in the
  text of the stored region; otherwise it is recomputed. The entry records those words,
  not the text.
\<close>

theorem region_cache_reuse:
  assumes "lru_ok (regionCache st)" and "1 \<le> capacity (regionCache st)"
    and "st1 = snd (recomputeRegion r0 (res0, st))"
    and "region_start r1 = region_start r0" and "region_end r1 = region_end r0"
  shows "\<exists>e. cache (regionCache st1) (region_start r1, region_end r1) = Some e
    \<and> entry_words e = wordsOf (region_text r0)
    \<and> processRegion r1 (res, st1)
        = (if concat (wordsOf (region_text r0)) = stripSpaces (region_text r1)
           then (res @ map (shiftResult (region_start r1)) (entry_results e),
                 st1\<lparr>regionCache := snd (LRU_get (region_start r1, region_end r1) (regionCache st1))\<rparr>)
           else recomputeRegion r1
                  (res, st1\<lparr>regionCache := snd (LRU_get (region_start r1, region_end r1) (regionCache st1))\<rparr>))"
proof -
  from recomputeRegion_stores [OF assms(1,2), of r0 res0] assms(3,4,5)
  obtain e where e: "cache (regionCache st1) (region_start r1, region_end r1) = Some e"
    and w: "entry_words e = wordsOf (region_text r0)"
    by auto
  from e w have "processRegion r1 (res, st1)
        = (if concat (wordsOf (region_text r0)) = stripSpaces (region_text r1)
           then (res @ map (shiftResult (region_start r1)) (entry_results e),
                 st1\<lparr>regionCache := snd (LRU_get (region_start r1, region_end r1) (regionCache st1))\<rparr>)
           else recomputeRegion r1
                  (res, st1\<lparr>regionCache := snd (LRU_get (region_start r1, region_end r1) (regionCache st1))\<rparr>))"
    by (simp add: processRegion_unfold stripSpaces_def)
  with e w show ?thesis by blast
qed

theorem region_cache_reuse_witness:
  "fst (processRegion \<lparr>region_start = 0, region_end = 5, region_text = ''helo ''\<rparr> ([], heloChecked))
     = [\<lparr>word = ''helo'', start = 0, endpos = 4, isCorrect = Some False\<rparr>]
   \<and> wordsOf ''helo.'' = [''helo'']"
proof -
  have ok: "lru_ok (regionCache readyWorker)" "1 \<le> capacity (regionCache readyWorker)"
    by (simp_all add: readyWorker_def initialWorker_def postMessage_def lru_ok_def LRU_clear_def newLRUCache_def)
  have w: "wordsOf ''helo.'' = [''helo'']" by code_simp
  have s: "stripSpaces ''helo '' = ''helo''" by code_simp
  have r: "map_option entry_results (cache (regionCache heloChecked) (0, 5))
     = Some [\<lparr>word = ''helo'', start = 0, endpos = 4, isCorrect = Some False\<rparr>]" by code_simp
  from region_cache_reuse [OF ok, of heloChecked heloRegion "[]"
      "\<lparr>region_start = 0, region_end = 5, region_text = ''helo ''\<rparr>" "[]"]
  show ?thesis using w s r
    by (auto simp: heloChecked_def heloRegion_def shiftResult_def)
qed

text \<open>
  C4, as stated, fails: the region \<open>[0,5)\<close> with text \<open>helo.\<close> is stored, and for the same
  region with the same text the stored entry is not valid, because the words joined give
  \<open>helo\<close> and the text without whitespace is \<open>helo.\<close>.
\<close>

theorem region_cache_ignores_unchanged_text:
  "map_option entry_words
     (cache (regionCache (snd (processIncrementalText readyWorker ''helo.'' [heloRegion]))) (0, 5))
     = Some [''helo'']
   \<and> \<not> regionCacheValid
         (cache (regionCache (snd (processIncrementalText readyWorker ''helo.'' [heloRegion]))) (0, 5))
         ''helo.''
   \<and> stripSpaces ''helo.'' = ''helo.''"
  by code_simp

subsection \<open>Suggestions\<close>

lemma levP_zero_right [simp]: "levP a b i 0 = i"
  by (cases i) simp_all

lemma levP_step_down: "levP a b (Suc i) j \<le> levP a b i j + 1"
  by (cases j) simp_all

lemma levP_step_right: "levP a b i (Suc j) \<le> levP a b i j + 1"
  by (cases i) simp_all

lemma levP_left_bound: "levP a b i j \<le> levP a b i (Suc j) + 1"
proof (induction i)
  case 0
  then show ?case by simp
next
  case (Suc i)
  have "levP a b (Suc i) j \<le> levP a b i j + 1" by (rule levP_step_down)
  with Suc show ?case by (simp add: min_def)
qed

lemma levP_up_bound: "levP a b i j \<le> levP a b (Suc i) j + 1"
proof (induction j)
  case 0
  then show ?case by simp
next
  case (Suc j)
  have "levP a b i (Suc j) \<le> levP a b i j + 1" by (rule levP_step_right)
  with Suc show ?case by (simp add: min_def)
qed

lemma levP_code:
  "levP a b (Suc i) (Suc j) =
     (if a ! i = b ! j then levP a b i j
      else min (min (levP a b i (Suc j) + 1) (levP a b (Suc i) j + 1)) (levP a b i j + 1))"
  using levP_left_bound [of a b i j] levP_up_bound [of a b i j] by (simp add: min_def)

lemma levP_lower: "i - j \<le> levP a b i j \<and> j - i \<le> levP a b i j"
  by (induction a b i j rule: levP.induct) (auto simp: min_def)

lemma fillRow_levP:
  assumes "j \<le> length str2"
  shows "fillRow (str1 ! i) (drop j str2) (map (levP str1 str2 i) [j ..< Suc (length str2)])
           (levP str1 str2 (Suc i) j)
         = map (levP str1 str2 (Suc i)) [Suc j ..< Suc (length str2)]"
  using assms
proof (induction "length str2 - j" arbitrary: j)
  case 0
  then have "j = length str2" by simp
  then show ?case by simp
next
  case (Suc n)
  then have lt: "j < length str2" by simp
  have d: "drop j str2 = str2 ! j # drop (Suc j) str2"
    using lt by (simp add: Cons_nth_drop_Suc)
  have u1: "[j ..< Suc (length str2)] = j # [Suc j ..< Suc (length str2)]"
    using lt by (simp add: upt_rec [of j])
  have u2: "[Suc j ..< Suc (length str2)] = Suc j # [Suc (Suc j) ..< Suc (length str2)]"
    using lt by (simp add: upt_rec [of "Suc j"])
  have n: "n = length str2 - Suc j" using Suc.hyps(2) by simp
  have IH: "fillRow (str1 ! i) (drop (Suc j) str2) (map (levP str1 str2 i) [Suc j ..< Suc (length str2)])
           (levP str1 str2 (Suc i) (Suc j))
         = map (levP str1 str2 (Suc i)) [Suc (Suc j) ..< Suc (length str2)]"
    using Suc.hyps(1) [OF n] lt by simp
  have v: "(if str1 ! i = str2 ! j then levP str1 str2 i j
            else min (min (levP str1 str2 i (Suc j) + 1) (levP str1 str2 (Suc i) j + 1))
                     (levP str1 str2 i j + 1))
           = levP str1 str2 (Suc i) (Suc j)"
    by (simp only: levP_code)
  have "fillRow (str1 ! i) (drop j str2) (map (levP str1 str2 i) [j ..< Suc (length str2)])
           (levP str1 str2 (Suc i) j)
        = fillRow (str1 ! i) (str2 ! j # drop (Suc j) str2)
            (levP str1 str2 i j # levP str1 str2 i (Suc j)
               # map (levP str1 str2 i) [Suc (Suc j) ..< Suc (length str2)])
            (levP str1 str2 (Suc i) j)"
    by (simp only: d u1 u2 list.map)
  also have "\<dots> = levP str1 str2 (Suc i) (Suc j)
      # fillRow (str1 ! i) (drop (Suc j) str2)
          (levP str1 str2 i (Suc j) # map (levP str1 str2 i) [Suc (Suc j) ..< Suc (length str2)])
          (levP str1 str2 (Suc i) (Suc j))"
    by (simp only: fillRow.simps Let_def v)
  also have "\<dots> = levP str1 str2 (Suc i) (Suc j)
      # fillRow (str1 ! i) (drop (Suc j) str2) (map (levP str1 str2 i) [Suc j ..< Suc (length str2)])
          (levP str1 str2 (Suc i) (Suc j))"
    by (simp only: u2 list.map)
  also have "\<dots> = levP str1 str2 (Suc i) (Suc j)
      # map (levP str1 str2 (Suc i)) [Suc (Suc j) ..< Suc (length str2)]"
    by (simp only: IH)
  also have "\<dots> = map (levP str1 str2 (Suc i)) [Suc j ..< Suc (length str2)]"
    by (simp only: u2 list.map)
  finally show ?case .
qed

lemma fillMatrix_levP:
  assumes "i \<le> length str1"
  shows "fillMatrix (drop i str1) str2 (Suc i) (map (levP str1 str2 i) [0 ..< Suc (length str2)])
         = map (levP str1 str2 (length str1)) [0 ..< Suc (length str2)]"
  using assms
proof (induction "length str1 - i" arbitrary: i)
  case 0
  then show ?case by simp
next
  case (Suc n)
  then have lt: "i < length str1" by simp
  have d: "drop i str1 = str1 ! i # drop (Suc i) str1"
    using lt by (simp add: Cons_nth_drop_Suc)
  have u: "[0 ..< Suc (length str2)] = 0 # [Suc 0 ..< Suc (length str2)]"
    by (rule upt_conv_Cons) simp
  have f: "fillRow (str1 ! i) str2 (map (levP str1 str2 i) [0 ..< Suc (length str2)]) (Suc i)
      = map (levP str1 str2 (Suc i)) [Suc 0 ..< Suc (length str2)]"
    using fillRow_levP [of 0 str2 str1 i, OF le0] by (simp only: drop_0 levP_zero_right)
  have "map (levP str1 str2 (Suc i)) [0 ..< Suc (length str2)]
      = Suc i # map (levP str1 str2 (Suc i)) [Suc 0 ..< Suc (length str2)]"
    by (subst u) (simp only: list.map levP_zero_right)
  with f have row: "Suc i # fillRow (str1 ! i) str2 (map (levP str1 str2 i) [0 ..< Suc (length str2)]) (Suc i)
      = map (levP str1 str2 (Suc i)) [0 ..< Suc (length str2)]"
    by simp
  have n: "n = length str1 - Suc i" using Suc.hyps(2) by simp
  from Suc.hyps(1) [OF n] lt
  have "fillMatrix (drop (Suc i) str1) str2 (Suc (Suc i))
          (map (levP str1 str2 (Suc i)) [0 ..< Suc (length str2)])
        = map (levP str1 str2 (length str1)) [0 ..< Suc (length str2)]"
    by simp
  then show ?case by (simp only: d fillMatrix.simps row)
qed

lemma calculateEditDistance_levenshtein: "calculateEditDistance str1 str2 = levenshtein str1 str2"
proof -
  have "[0 ..< Suc (length str2)] = map (levP str1 str2 0) [0 ..< Suc (length str2)]"
    by (simp add: map_idI)
  then have "fillMatrix str1 str2 1 [0 ..< Suc (length str2)]
      = map (levP str1 str2 (length str1)) [0 ..< Suc (length str2)]"
    using fillMatrix_levP [of 0 str1 str2] by simp
  then show ?thesis
    by (simp add: calculateEditDistance_def levenshtein_def last_map)
qed

lemma levenshtein_length_diff:
  "\<bar>int (length c) - int (length w)\<bar> \<le> int (levenshtein w c)"
  using levP_lower [of "length w" "length c" w c] by (simp add: levenshtein_def) linarith

lemma suggestLoop_take:
  assumes "1 \<le> maxS" and "int (length sugg) < maxS"
  shows "suggestLoop w maxS cands sugg = take (nat maxS) (sugg @ filter (closeWord w) cands)"
  using assms(2)
proof (induction cands arbitrary: sugg)
  case Nil
  then show ?case by simp
next
  case (Cons c cands)
  show ?case
  proof (cases "closeWord w c")
    case False
    then have "(calculateEditDistance w c \<le> 2 \<and> 0 < calculateEditDistance w c) = False"
      by (auto simp: closeWord_def calculateEditDistance_levenshtein)
    then have "suggestLoop w maxS (c # cands) sugg = suggestLoop w maxS cands sugg"
      by (simp only: suggestLoop.simps Let_def if_False if_cancel)
    with False Cons show ?thesis by simp
  next
    case True
    then have dist: "(calculateEditDistance w c \<le> 2 \<and> 0 < calculateEditDistance w c) = True"
      by (auto simp: closeWord_def calculateEditDistance_levenshtein)
    with levenshtein_length_diff [of c w]
    have near: "(\<bar>int (length c) - int (length w)\<bar> \<le> 2) = True"
      by (simp add: calculateEditDistance_levenshtein)
    show ?thesis
    proof (cases "maxS \<le> int (length (sugg @ [c]))")
      case full: True
      with Cons.prems have "nat maxS = length (sugg @ [c])" by simp
      then have "take (nat maxS) (sugg @ filter (closeWord w) (c # cands)) = sugg @ [c]"
        using True by simp
      with full show ?thesis
        by (simp only: suggestLoop.simps near dist Let_def if_True)
    next
      case notfull: False
      then have "int (length (sugg @ [c])) < maxS" by simp
      from Cons.IH [OF this] notfull True show ?thesis
        by (simp only: suggestLoop.simps near dist Let_def if_True if_False filter.simps append_Cons append_Nil append_assoc)
    qed
  qed
qed

text \<open>
  The fallback for any \<open>max\<close> of at least one: the first \<open>max\<close> close entries of the
  common-word list, in the order of the list.
\<close>

lemma getSuggestions_fallback_general:
  "(dictionary st = Some d \<and> suggest d w = [] \<and> toLowerCase w \<notin> customWords st \<and> 1 \<le> maxS
      \<longrightarrow> getSuggestions st w maxS
            = (if w = [] then []
               else take (nat maxS) (filter (closeWord (toLowerCase w)) commonWords)))
   \<and> (toLowerCase w \<in> customWords st \<longrightarrow> getSuggestions st w maxS = [])"
proof -
  have "getSimpleSuggestions (toLowerCase w) maxS
      = take (nat maxS) (filter (closeWord (toLowerCase w)) commonWords)" if "1 \<le> maxS"
    using suggestLoop_take [OF that, of "[]" "toLowerCase w" commonWords] that
    by (simp add: getSimpleSuggestions_def)
  then show ?thesis
    by (auto simp: getSuggestions_def split: option.splits)
qed

lemma teh_suggestions:
  "getSuggestions readyWorker ''teh'' 5 = [''the'', ''be'', ''to'', ''he'', ''they'']"
  by code_simp

lemma readyWorker_fields:
  "dictionary readyWorker = Some sampleTypo" "customWords readyWorker = {}"
  by (simp_all add: readyWorker_def initialWorker_def postMessage_def)

text \<open>
  C9. The worker asks for suggestions with \<open>max = 5\<close> only. When the dictionary is loaded
  and suggests nothing for a word that is not a custom word, the suggestions are the
  first five entries of the common-word list whose Levenshtein distance to the lowercased
  word is 1 or 2, in the order of the list (none for the empty word), so at most five.
  For a word whose lowercased form is a custom word the suggestions are empty.
\<close>

theorem getSuggestions_default_max:
  "posted (onmessage st (GET_SUGGESTIONS w)) = posted st @ [SUGGESTIONS_RESULT w (getSuggestions st w 5)]
   \<and> (dictionary st = Some d \<and> suggest d w = [] \<and> toLowerCase w \<notin> customWords st
      \<longrightarrow> getSuggestions st w 5
            = (if w = [] then []
               else take 5 (filter (closeWord (toLowerCase w)) commonWords))
          \<and> length (getSuggestions st w 5) \<le> 5)
   \<and> (toLowerCase w \<in> customWords st \<longrightarrow> getSuggestions st w 5 = [])"
proof -
  have "posted (onmessage st (GET_SUGGESTIONS w))
      = posted st @ [SUGGESTIONS_RESULT w (getSuggestions st w 5)]"
    by (simp add: postMessage_def)
  moreover have "getSuggestions st w 5
            = (if w = [] then []
               else take 5 (filter (closeWord (toLowerCase w)) commonWords))
          \<and> length (getSuggestions st w 5) \<le> 5"
    if "dictionary st = Some d \<and> suggest d w = [] \<and> toLowerCase w \<notin> customWords st"
    using getSuggestions_fallback_general [of st d w 5] that by simp
  moreover have "getSuggestions st w 5 = []" if "toLowerCase w \<in> customWords st"
    using getSuggestions_fallback_general [of st d w 5] that by simp
  ultimately show ?thesis by blast
qed

theorem getSuggestions_default_max_witness:
  "take 5 (filter (closeWord ''teh'') commonWords) = [''the'', ''be'', ''to'', ''he'', ''they'']
   \<and> getSuggestions (readyWorker\<lparr>customWords := {''teh''}\<rparr>) ''Teh'' 5 = []"
proof -
  have low: "toLowerCase ''teh'' = ''teh''" "toLowerCase ''Teh'' = ''teh''" by code_simp+
  from getSuggestions_default_max [of readyWorker "''teh''" sampleTypo] teh_suggestions
  have "take 5 (filter (closeWord ''teh'') commonWords) = [''the'', ''be'', ''to'', ''he'', ''they'']"
    by (simp add: readyWorker_fields low sampleTypo_def)
  moreover from getSuggestions_default_max [of "readyWorker\<lparr>customWords := {''teh''}\<rparr>" "''Teh''" sampleTypo]
  have "getSuggestions (readyWorker\<lparr>customWords := {''teh''}\<rparr>) ''Teh'' 5 = []"
    by (simp add: low)
  ultimately show ?thesis by simp
qed

text \<open>
  With \<open>max = 0\<close>, which the worker never passes, the loop has pushed a candidate before
  it tests the length, and one candidate is returned.
\<close>

lemma getSuggestions_max_zero:
  "getSuggestions readyWorker ''teh'' 0 = [''the'']"
  by code_simp

subsection \<open>Two full checks in a row\<close>

lemma wordKeys_keysOf: "wordKeys s = keysOf (matchesFrom s 0)"
  by (simp add: wordKeys_def wordsOf_def keysOf_def)

lemma processWord_cache:
  "checkedCache (snd (processWord m (res, st))) = checkedCache (snd (checkWord st (toLowerCase (snd m))))"
  "checkLog (snd (processWord m (res, st))) = checkLog (snd (checkWord st (toLowerCase (snd m))))"
  "dictionary (snd (processWord m (res, st))) = dictionary st"
  "customWords (snd (processWord m (res, st))) = customWords st"
proof -
  obtain idx w where m: "m = (idx, w)" by (cases m)
  obtain b st1 where cw: "checkWord st (toLowerCase w) = (b, st1)"
    by (cases "checkWord st (toLowerCase w)")
  from checkWord_same [of st "toLowerCase w"] cw have "sameDictionary st st1" by simp
  then show "checkedCache (snd (processWord m (res, st))) = checkedCache (snd (checkWord st (toLowerCase (snd m))))"
    "checkLog (snd (processWord m (res, st))) = checkLog (snd (checkWord st (toLowerCase (snd m))))"
    "dictionary (snd (processWord m (res, st))) = dictionary st"
    "customWords (snd (processWord m (res, st))) = customWords st"
    using m cw by (simp_all add: processWord_def sameDictionary_def)
qed

lemma checkWord_cache_hit:
  assumes "cache (checkedCache st) w = Some v"
  shows "checkedCache (snd (checkWord st w)) = snd (LRU_get w (checkedCache st))"
    and "checkLog (snd (checkWord st w)) = checkLog st"
  using assms by (simp_all add: checkWord_hit)

lemma checkWord_cache_miss:
  assumes "cache (checkedCache st) w = None"
  shows "checkedCache (snd (checkWord st w)) = LRU_set w (isValidWord st w) (checkedCache st)"
    and "checkLog (snd (checkWord st w)) = checkLog (logCheck st w)"
  using assms by (simp_all add: checkWord_miss)

lemma set_remove1_distinct: "distinct xs \<Longrightarrow> set (remove1 k xs) = set xs - {k}"
  by simp

lemma touch_get:
  assumes "lru_ok c" and "chain c = xs @ ys" and "cache c k = Some v"
  shows "\<exists>xs' ys'. chain (snd (LRU_get k c)) = xs' @ ys' \<and> set xs' = insert k (set xs)"
proof (cases "k \<in> set xs")
  case True
  from assms(1,2) have "distinct xs" by (simp add: lru_ok_def)
  with True have "set (k # remove1 k xs) = insert k (set xs)" by auto
  moreover have "chain (snd (LRU_get k c)) = (k # remove1 k xs) @ ys"
    using assms(2,3) True by (simp add: LRU_get_chain remove1_append)
  ultimately show ?thesis by blast
next
  case False
  then have "chain (snd (LRU_get k c)) = (k # xs) @ remove1 k ys"
    using assms(2,3) by (simp add: LRU_get_chain remove1_append)
  then show ?thesis by (metis list.set(2))
qed

lemma touch_set:
  assumes "lru_ok c" and "chain c = xs @ ys" and "cache c k = None"
    and "int (length xs) + 1 \<le> capacity c"
  shows "\<exists>ys'. chain (LRU_set k v c) = (k # xs) @ ys'"
proof (cases "capacity c < sizeL c + 1")
  case False
  with assms(2,3) show ?thesis by (simp add: LRU_set_new)
next
  case True
  with assms(1,2,4) have "ys \<noteq> []" by (auto simp: lru_ok_def)
  then have "butlast (k # xs @ ys) = (k # xs) @ butlast ys"
    by (simp add: butlast_append)
  with True assms(2,3) show ?thesis by (simp add: LRU_set_new)
qed

lemma checkWord_recent:
  assumes "lru_ok (checkedCache st)" and "chain (checkedCache st) = xs @ ys"
    and "int (card (insert w (set xs))) \<le> capacity (checkedCache st)"
  shows "lru_ok (checkedCache (snd (checkWord st w)))"
    and "capacity (checkedCache (snd (checkWord st w))) = capacity (checkedCache st)"
    and "\<exists>xs' ys'. chain (checkedCache (snd (checkWord st w))) = xs' @ ys' \<and> set xs' = insert w (set xs)"
proof -
  show "lru_ok (checkedCache (snd (checkWord st w)))"
    by (cases "cache (checkedCache st) w")
      (simp_all add: checkWord_cache_hit checkWord_cache_miss lru_ok_get lru_ok_set assms(1))
  show "capacity (checkedCache (snd (checkWord st w))) = capacity (checkedCache st)"
    by (cases "cache (checkedCache st) w") (simp_all add: checkWord_cache_hit checkWord_cache_miss)
  show "\<exists>xs' ys'. chain (checkedCache (snd (checkWord st w))) = xs' @ ys' \<and> set xs' = insert w (set xs)"
  proof (cases "cache (checkedCache st) w")
    case (Some v)
    from touch_get [OF assms(1,2) Some] show ?thesis by (simp add: checkWord_cache_hit [OF Some])
  next
    case None
    with assms(1,2) have "w \<notin> set xs" by (auto simp: lru_ok_def)
    moreover from assms(1,2) have "distinct xs" by (simp add: lru_ok_def)
    ultimately have "card (insert w (set xs)) = length xs + 1"
      by (simp add: distinct_card)
    with assms(3) have "int (length xs) + 1 \<le> capacity (checkedCache st)" by simp
    from touch_set [OF assms(1,2) None this, of "isValidWord st w"]
    show ?thesis by (metis checkWord_cache_miss(1) [OF None] list.set(2))
  qed
qed

lemma fold_processWord_recent:
  assumes "lru_ok (checkedCache st)" and "chain (checkedCache st) = xs @ ys"
    and "int (card (set xs \<union> set (keysOf ms))) \<le> capacity (checkedCache st)"
  shows "lru_ok (checkedCache (snd (fold processWord ms (res, st))))
    \<and> capacity (checkedCache (snd (fold processWord ms (res, st)))) = capacity (checkedCache st)
    \<and> (\<exists>xs' ys'. chain (checkedCache (snd (fold processWord ms (res, st)))) = xs' @ ys'
          \<and> set xs' = set xs \<union> set (keysOf ms))"
  using assms
proof (induction ms arbitrary: res st xs ys)
  case Nil
  then show ?case by (auto simp: keysOf_def)
next
  case (Cons m ms)
  let ?w = "toLowerCase (snd m)"
  obtain res1 st1 where step: "processWord m (res, st) = (res1, st1)"
    by (cases "processWord m (res, st)")
  then have c1: "checkedCache st1 = checkedCache (snd (checkWord st ?w))"
    using processWord_cache(1) [of m res st] by simp
  have fin: "finite (set xs \<union> set (keysOf (m # ms)))" by simp
  have "card (insert ?w (set xs)) \<le> card (set xs \<union> set (keysOf (m # ms)))"
    by (rule card_mono [OF fin]) (auto simp: keysOf_def)
  with Cons.prems(3) have small: "int (card (insert ?w (set xs))) \<le> capacity (checkedCache st)" by simp
  note cw = checkWord_recent [OF Cons.prems(1,2) small]
  from cw(3) c1 obtain xs1 ys1 where ch1: "chain (checkedCache st1) = xs1 @ ys1"
    and xs1: "set xs1 = insert ?w (set xs)" by auto
  have ok1: "lru_ok (checkedCache st1)" using cw(1) c1 by simp
  have cap1: "capacity (checkedCache st1) = capacity (checkedCache st)" using cw(2) c1 by simp
  have eq: "set xs1 \<union> set (keysOf ms) = set xs \<union> set (keysOf (m # ms))"
    using xs1 by (auto simp: keysOf_def)
  have small1: "int (card (set xs1 \<union> set (keysOf ms))) \<le> capacity (checkedCache st1)"
    using Cons.prems(3) by (simp only: eq cap1)
  from Cons.IH [OF ok1 ch1 small1, of res1] step eq cap1 show ?case by simp
qed

lemma fold_processWord_quiet:
  assumes "set (keysOf ms) \<subseteq> dom (cache (checkedCache st))"
  shows "checkLog (snd (fold processWord ms (res, st))) = checkLog st"
  using assms
proof (induction ms arbitrary: res st)
  case Nil
  then show ?case by simp
next
  case (Cons m ms)
  let ?w = "toLowerCase (snd m)"
  obtain res1 st1 where step: "processWord m (res, st) = (res1, st1)"
    by (cases "processWord m (res, st)")
  from Cons.prems obtain v where hit: "cache (checkedCache st) ?w = Some v"
    by (auto simp: keysOf_def)
  from step processWord_cache(1,2) [of m res st] checkWord_cache_hit [OF hit]
  have c1: "checkedCache st1 = snd (LRU_get ?w (checkedCache st))" and l1: "checkLog st1 = checkLog st"
    by simp_all
  have "set (keysOf ms) \<subseteq> dom (cache (checkedCache st1))"
    using Cons.prems by (simp add: c1 keysOf_def)
  from Cons.IH [OF this, of res1] step l1 show ?case by simp
qed

lemma wordBoundary_append_left:
  "p < length s \<Longrightarrow> wordBoundary (s @ t) p = wordBoundary s p"
  by (cases p) (auto simp: wordBoundary_def nth_append)

lemma wordBoundary_append_right:
  assumes "s = [] \<or> \<not> isWordChar (last s)"
  shows "wordBoundary (s @ t) (length s + q) = wordBoundary t q"
proof (cases q)
  case 0
  show ?thesis
  proof (cases "s = []")
    case True
    then show ?thesis by simp
  next
    case False
    with assms have "\<not> isWordChar (s ! (length s - 1))" by (simp add: last_conv_nth)
    with False 0 show ?thesis by (auto simp: wordBoundary_def nth_append)
  qed
next
  case (Suc q')
  then show ?thesis by (auto simp: wordBoundary_def nth_append)
qed

lemma backtrack_append_left:
  "p + n < length s \<Longrightarrow> backtrack (s @ t) p n = backtrack s p n"
  by (induction n) (simp_all add: wordBoundary_append_left)

lemma backtrack_append_right:
  assumes "s = [] \<or> \<not> isWordChar (last s)"
  shows "backtrack (s @ t) (length s + q) n = backtrack t q n"
proof (induction n)
  case 0
  then show ?case by simp
next
  case (Suc n)
  have "wordBoundary (s @ t) (length s + q + Suc n) = wordBoundary t (q + Suc n)"
    using wordBoundary_append_right [OF assms, of t "q + Suc n"] by (simp add: add.assoc)
  with Suc show ?case by simp
qed

lemma run_append_left:
  assumes "s \<noteq> []" and "\<not> isClassChar (last s)" and "p < length s"
  shows "takeWhile isClassChar (drop p (s @ t)) = takeWhile isClassChar (drop p s)"
    and "p + length (takeWhile isClassChar (drop p s)) < length s"
proof -
  have ne: "drop p s \<noteq> []" using assms(3) by simp
  then have l: "last (drop p s) = last s" using assms(3) by simp
  with ne assms(2) have ex: "\<exists>x \<in> set (drop p s). \<not> isClassChar x"
    by (metis last_in_set)
  then obtain x where x: "x \<in> set (drop p s)" "\<not> isClassChar x" by blast
  show "takeWhile isClassChar (drop p (s @ t)) = takeWhile isClassChar (drop p s)"
    using x assms(3) by (simp add: takeWhile_append1)
  have "takeWhile isClassChar (drop p s) \<noteq> drop p s"
    using ex by (simp add: takeWhile_eq_all_conv)
  moreover have "takeWhile isClassChar (drop p s)
      = take (length (takeWhile isClassChar (drop p s))) (drop p s)"
    by (rule takeWhile_eq_take)
  moreover have "length (takeWhile isClassChar (drop p s)) \<le> length (drop p s)"
    by (rule length_takeWhile_le)
  ultimately have "length (takeWhile isClassChar (drop p s)) < length (drop p s)"
    by (metis le_neq_implies_less take_all order_refl)
  then show "p + length (takeWhile isClassChar (drop p s)) < length s" by simp
qed

lemma matchAt_append_left:
  assumes "s \<noteq> []" and "\<not> isClassChar (last s)" and "p < length s"
  shows "matchAt (s @ t) p = matchAt s p"
  using run_append_left(1) [OF assms, of t] run_append_left(2) [OF assms] assms(3)
  by (simp add: matchAt_def wordBoundary_append_left backtrack_append_left)

lemma matchAt_append_right:
  assumes "s = [] \<or> \<not> isWordChar (last s)"
  shows "matchAt (s @ t) (length s + q) = matchAt t q"
  by (simp add: matchAt_def wordBoundary_append_right [OF assms] backtrack_append_right [OF assms])

lemma regexExec_past_end: "length s \<le> i \<Longrightarrow> regexExec s i = None"
proof (induction s i rule: regexExec.induct)
  case (1 s i)
  show ?case
  proof (cases "length s < i")
    case True
    then show ?thesis by (simp add: regexExec.simps [of s i])
  next
    case False
    with "1.prems" have i: "i = length s" by simp
    then have m: "matchAt s i = None" by (simp add: matchAt_def)
    from "1.IH" [OF False m] i have "regexExec s (Suc i) = None" by simp
    with m False show ?thesis by (simp add: regexExec.simps [of s i])
  qed
qed

lemma regexExec_append_right:
  assumes "s = [] \<or> \<not> isWordChar (last s)"
  shows "regexExec (s @ t) (length s + q) = map_option (shiftMatch (length s)) (regexExec t q)"
proof (induction t q rule: regexExec.induct)
  case (1 t q)
  show ?case
  proof (cases "length t < q")
    case True
    then show ?thesis
      by (simp add: regexExec.simps [of t q] regexExec.simps [of "s @ t" "length s + q"])
  next
    case False
    note m = matchAt_append_right [OF assms, of t q]
    show ?thesis
    proof (cases "matchAt t q")
      case None
      from "1.IH" [OF False None] None m False show ?thesis
        by (simp add: regexExec.simps [of t q] regexExec.simps [of "s @ t" "length s + q"])
    next
      case (Some n)
      with m False show ?thesis
        by (simp add: regexExec.simps [of t q] regexExec.simps [of "s @ t" "length s + q"]
            shiftMatch_def)
    qed
  qed
qed

lemma regexExec_append_left:
  assumes "s \<noteq> []" and "\<not> isClassChar (last s)" and "\<not> isWordChar (last s)" and "i \<le> length s"
  shows "regexExec (s @ t) i =
     (case regexExec s i of
        Some m \<Rightarrow> Some m
      | None \<Rightarrow> map_option (shiftMatch (length s)) (regexExec t 0))"
  using assms(4)
proof (induction "length s - i" arbitrary: i)
  case 0
  then have i: "i = length s" by simp
  have "regexExec s i = None" using i by (simp add: regexExec_past_end)
  moreover have "regexExec (s @ t) (length s + 0) = map_option (shiftMatch (length s)) (regexExec t 0)"
    using assms(3) by (intro regexExec_append_right) simp
  ultimately show ?case using i by simp
next
  case (Suc n)
  then have lt: "i < length s" by simp
  then have nle: "\<not> length s < i" "\<not> length (s @ t) < i" by simp_all
  note m = matchAt_append_left [OF assms(1,2) lt, of t]
  show ?case
  proof (cases "matchAt s i")
    case None
    have "n = length s - Suc i" using Suc.hyps(2) by simp
    moreover from lt have "Suc i \<le> length s" by simp
    ultimately have "regexExec (s @ t) (Suc i) =
       (case regexExec s (Suc i) of
          Some m \<Rightarrow> Some m
        | None \<Rightarrow> map_option (shiftMatch (length s)) (regexExec t 0))"
      by (rule Suc.hyps(1))
    with None m nle show ?thesis
      by (simp add: regexExec.simps [of s i] regexExec.simps [of "s @ t" i])
  next
    case (Some k)
    from matchAt_Some(2) [OF Some] have "take k (drop i (s @ t)) = take k (drop i s)" by simp
    with Some m nle show ?thesis
      by (simp add: regexExec.simps [of s i] regexExec.simps [of "s @ t" i])
  qed
qed

lemma shiftMatch_zero [simp]: "shiftMatch 0 = (\<lambda>m. m)"
  by (simp add: fun_eq_iff shiftMatch_def)

lemma matchesFrom_append_right:
  assumes "s = [] \<or> \<not> isWordChar (last s)"
  shows "matchesFrom (s @ t) (length s + q) = map (shiftMatch (length s)) (matchesFrom t q)"
proof (induction "Suc (length t) - q" arbitrary: q rule: less_induct)
  case less
  show ?case
  proof (cases "regexExec t q")
    case None
    then show ?thesis
      by (simp add: matchesFrom_unfold [of t q] matchesFrom_unfold [of "s @ t" "length s + q"]
          regexExec_append_right [OF assms])
  next
    case (Some m)
    from less [OF regexExec_decreases [OF Some]]
    have "matchesFrom (s @ t) (length s + (fst m + length (snd m)))
        = map (shiftMatch (length s)) (matchesFrom t (fst m + length (snd m)))" .
    with Some show ?thesis
      by (simp add: matchesFrom_unfold [of t q] matchesFrom_unfold [of "s @ t" "length s + q"]
          regexExec_append_right [OF assms] shiftMatch_def add.assoc)
  qed
qed

lemma matchesFrom_append_left:
  assumes "s \<noteq> []" and "\<not> isClassChar (last s)" and "\<not> isWordChar (last s)" and "i \<le> length s"
  shows "matchesFrom (s @ t) i = matchesFrom s i @ map (shiftMatch (length s)) (matchesFrom t 0)"
  using assms(4)
proof (induction "Suc (length s) - i" arbitrary: i rule: less_induct)
  case less
  note ex = regexExec_append_left [OF assms(1,2,3) less.prems, of t]
  show ?case
  proof (cases "regexExec s i")
    case None
    have r: "matchesFrom (s @ t) (length s + 0) = map (shiftMatch (length s)) (matchesFrom t 0)"
      using assms(3) by (intro matchesFrom_append_right) simp
    show ?thesis
    proof (cases "regexExec t 0")
      case n2: None
      with None ex show ?thesis
        by (simp add: matchesFrom_unfold [of s i] matchesFrom_unfold [of "s @ t" i]
            matchesFrom_unfold [of t 0])
    next
      case (Some m)
      have "matchesFrom (s @ t) (length s + (fst m + length (snd m)))
          = map (shiftMatch (length s)) (matchesFrom t (fst m + length (snd m)))"
        using assms(3) by (intro matchesFrom_append_right) simp
      with None Some ex show ?thesis
        by (simp add: matchesFrom_unfold [of s i] matchesFrom_unfold [of "s @ t" i]
            matchesFrom_unfold [of t 0] shiftMatch_def add.assoc)
    qed
  next
    case (Some m)
    then have "regexExec s i = Some (fst m, snd m)" by simp
    from regexExec_Some [OF this] have le: "fst m + length (snd m) \<le> length s" by simp
    from less.hyps [OF regexExec_decreases [OF Some] le] Some ex show ?thesis
      by (simp add: matchesFrom_unfold [of s i] matchesFrom_unfold [of "s @ t" i])
  qed
qed

lemma matchesFrom_append:
  assumes "s = [] \<or> last s = CHR '' ''"
  shows "matchesFrom (s @ t) 0 = matchesFrom s 0 @ map (shiftMatch (length s)) (matchesFrom t 0)"
proof (cases "s = []")
  case True
  then show ?thesis
    by (simp add: matchesFrom_unfold [of "[]" 0] regexExec_past_end shiftMatch_def)
next
  case False
  with assms have "\<not> isClassChar (last s)" "\<not> isWordChar (last s)"
    by (simp_all add: isClassChar_def isWordChar_def isLetter_def code_def)
  from matchesFrom_append_left [OF False this] show ?thesis by simp
qed

lemma matchesFrom_one_word:
  assumes "2 \<le> k"
  shows "matchesFrom (replicate k CHR ''a'' @ '' '') 0 = [(0, replicate k CHR ''a'')]"
proof -
  let ?s = "replicate k CHR ''a'' @ '' ''"
  have a: "isWordChar CHR ''a''" "isClassChar CHR ''a''"
    by (simp_all add: isWordChar_def isClassChar_def isLetter_def code_def)
  have sp: "\<not> isWordChar CHR '' ''" "\<not> isClassChar CHR '' ''"
    by (simp_all add: isWordChar_def isClassChar_def isLetter_def code_def)
  have b0: "wordBoundary ?s 0"
    using assms a by (simp add: wordBoundary_def nth_append)
  have bk: "wordBoundary ?s k"
    using assms a sp by (simp add: wordBoundary_def nth_append)
  have "takeWhile isClassChar ?s = replicate k CHR ''a'' @ takeWhile isClassChar '' ''"
    by (rule takeWhile_append2) (use a in auto)
  then have run: "takeWhile isClassChar (drop 0 ?s) = replicate k CHR ''a''"
    using sp by simp
  obtain k' where k': "k = Suc k'" using assms by (cases k) auto
  have "backtrack ?s 0 k = Some k"
    using bk assms by (simp add: k')
  then have m0: "matchAt ?s 0 = Some k"
    using b0 run by (simp add: matchAt_def)
  then have e0: "regexExec ?s 0 = Some (0, replicate k CHR ''a'')"
    by (simp add: regexExec.simps [of ?s 0])
  have mk: "matchAt ?s k = None"
    using sp by (simp add: matchAt_def)
  have "regexExec ?s (Suc k) = None" by (rule regexExec_past_end) simp
  with mk have ek: "regexExec ?s k = None"
    by (simp add: regexExec.simps [of ?s k])
  show ?thesis
    using e0 ek by (simp add: matchesFrom_unfold [of ?s 0] matchesFrom_unfold [of ?s k])
qed

lemma manyWords_sep: "manyWords n = [] \<or> last (manyWords n) = CHR '' ''"
  by (cases n) simp_all

lemma matchesFrom_aWord: "matchesFrom (aWord n @ '' '') 0 = [(0, aWord n)]"
  unfolding aWord_def by (rule matchesFrom_one_word) simp

lemma wordsOf_manyWords: "wordsOf (manyWords n) = map aWord [0 ..< n]"
proof (induction n)
  case 0
  then show ?case
    by (simp add: wordsOf_def matchesFrom_unfold [of "[]" 0] regexExec_past_end)
next
  case (Suc n)
  have "matchesFrom (manyWords n @ (aWord n @ '' '')) 0
      = matchesFrom (manyWords n) 0
        @ map (shiftMatch (length (manyWords n))) (matchesFrom (aWord n @ '' '') 0)"
    by (rule matchesFrom_append [OF manyWords_sep])
  then show ?case
    using Suc by (simp add: wordsOf_def matchesFrom_aWord shiftMatch_def)
qed

lemma toLowerCase_aWord: "toLowerCase (aWord n) = aWord n"
  by (simp add: aWord_def toLowerCase_def lowerChar_def code_def)

lemma card_wordKeys_manyWords: "card (set (wordKeys (manyWords n))) = n"
proof -
  have "wordKeys (manyWords n) = map aWord [0 ..< n]"
    by (simp add: wordKeys_def wordsOf_manyWords toLowerCase_aWord)
  moreover have "inj aWord"
  proof (rule injI)
    fix x y
    assume "aWord x = aWord y"
    then have "length (aWord x) = length (aWord y)" by simp
    then show "x = y" by (simp add: aWord_def)
  qed
  then have "distinct (map aWord [0 ..< n])"
    by (simp add: distinct_map inj_on_def inj_def)
  then have "card (set (map aWord [0 ..< n])) = length (map aWord [0 ..< n])"
    by (rule distinct_card)
  ultimately show ?thesis by simp
qed

lemma lru_bounded_set: "lru_bounded c \<Longrightarrow> lru_bounded (LRU_set k v c)"
  by (cases "cache c k") (auto simp: lru_bounded_def lru_ok_set LRU_set_new LRU_set_existing)

lemma lru_bounded_get: "lru_bounded c \<Longrightarrow> lru_bounded (snd (LRU_get k c))"
  by (simp add: lru_bounded_def lru_ok_get)

lemma lru_bounded_card:
  assumes "lru_bounded c"
  shows "int (card (dom (cache c))) \<le> capacity c"
proof -
  from assms have "card (dom (cache c)) = length (chain c)"
    by (metis lru_bounded_def lru_ok_def distinct_card)
  with assms show ?thesis by (simp add: lru_bounded_def lru_ok_def)
qed

lemma checkWord_bounded:
  assumes "lru_bounded (checkedCache st)"
  shows "lru_bounded (checkedCache (snd (checkWord st w)))"
  using assms
  by (cases "cache (checkedCache st) w")
    (simp_all add: checkWord_cache_hit checkWord_cache_miss lru_bounded_get lru_bounded_set)

lemma checkWord_capacity [simp]:
  "capacity (checkedCache (snd (checkWord st w))) = capacity (checkedCache st)"
  by (cases "cache (checkedCache st) w") (simp_all add: checkWord_cache_hit checkWord_cache_miss)

lemma fold_processWord_bounded:
  assumes "lru_bounded (checkedCache st)"
  shows "lru_bounded (checkedCache (snd (fold processWord ms (res, st))))
    \<and> capacity (checkedCache (snd (fold processWord ms (res, st)))) = capacity (checkedCache st)"
  using assms
proof (induction ms arbitrary: res st)
  case Nil
  then show ?case by simp
next
  case (Cons m ms)
  obtain res1 st1 where step: "processWord m (res, st) = (res1, st1)"
    by (cases "processWord m (res, st)")
  with processWord_cache(1) [of m res st]
  have c1: "checkedCache st1 = checkedCache (snd (checkWord st (toLowerCase (snd m))))" by simp
  have "lru_bounded (checkedCache st1)" unfolding c1 by (rule checkWord_bounded [OF Cons.prems])
  from Cons.IH [OF this, of res1] step c1 show ?case by simp
qed

lemma checkWord_log_mono: "length (checkLog st) \<le> length (checkLog (snd (checkWord st w)))"
  by (cases "cache (checkedCache st) w")
    (simp_all add: checkWord_cache_hit checkWord_cache_miss logCheck_def split: option.splits)

lemma fold_processWord_log_mono:
  "length (checkLog st) \<le> length (checkLog (snd (fold processWord ms (res, st))))"
proof (induction ms arbitrary: res st)
  case Nil
  then show ?case by simp
next
  case (Cons m ms)
  obtain res1 st1 where step: "processWord m (res, st) = (res1, st1)"
    by (cases "processWord m (res, st)")
  with processWord_cache(2) [of m res st] checkWord_log_mono [of st "toLowerCase (snd m)"]
  have "length (checkLog st) \<le> length (checkLog st1)" by simp
  with Cons.IH [of st1 res1] step show ?case by simp
qed

lemma fold_processWord_loud:
  assumes "dictionary st = Some d" and "customWords st = {}"
    and "\<not> set (keysOf ms) \<subseteq> dom (cache (checkedCache st))"
  shows "length (checkLog st) < length (checkLog (snd (fold processWord ms (res, st))))"
  using assms
proof (induction ms arbitrary: res st)
  case Nil
  then show ?case by (simp add: keysOf_def)
next
  case (Cons m ms)
  let ?w = "toLowerCase (snd m)"
  obtain res1 st1 where step: "processWord m (res, st) = (res1, st1)"
    by (cases "processWord m (res, st)")
  note fields = processWord_cache [of m res st]
  show ?case
  proof (cases "cache (checkedCache st) ?w")
    case None
    from checkWord_cache_miss(2) [OF None] Cons.prems(1,2)
    have "checkLog (snd (checkWord st ?w)) = checkLog st @ [?w]"
      by (simp add: logCheck_def)
    with fields(2) step have "length (checkLog st) < length (checkLog st1)" by simp
    with fold_processWord_log_mono [of st1 ms res1] step show ?thesis by simp
  next
    case (Some v)
    from checkWord_cache_hit [OF Some] fields step
    have c1: "cache (checkedCache st1) = cache (checkedCache st)" and l1: "checkLog st1 = checkLog st"
      and d1: "dictionary st1 = Some d" "customWords st1 = {}"
      using Cons.prems(1,2) by simp_all
    have "\<not> set (keysOf ms) \<subseteq> dom (cache (checkedCache st1))"
      using Cons.prems(3) Some by (auto simp: c1 keysOf_def)
    from Cons.IH [OF d1 this, of res1] step l1 show ?thesis by simp
  qed
qed

lemma readyWorker_state:
  "dictionary readyWorker = Some sampleTypo" "customWords readyWorker = {}"
  "cache (checkedCache readyWorker) = Map.empty" "chain (checkedCache readyWorker) = []"
  "sizeL (checkedCache readyWorker) = 0" "capacity (checkedCache readyWorker) = 5000"
  by (simp_all add: readyWorker_def initialWorker_def postMessage_def LRU_clear_def newLRUCache_def)

lemma helo_wrold_keys: "wordKeys ''helo wrold'' = [''helo'', ''wrold'']"
  by code_simp

lemma helo_wrold_log: "checkLog (snd (processText readyWorker ''helo wrold'')) = [''helo'', ''wrold'']"
  by code_simp

text \<open>
  C7, as the code has it. From a state whose word cache is well formed and holds only
  verdicts that the dictionary and the custom words give, two full checks of the same
  text in a row return the same results; and when the text has no more distinct
  lowercased words than the word cache has room for (5000 in the worker), the second
  check hands no word to \<open>dictionary.check\<close>.
\<close>

theorem processText_twice:
  assumes "cacheConsistent st" and "lru_ok (checkedCache st)"
  shows "fst (processText (snd (processText st fullText)) fullText) = fst (processText st fullText)
    \<and> (int (card (set (wordKeys fullText))) \<le> capacity (checkedCache st)
        \<longrightarrow> checkLog (snd (processText (snd (processText st fullText)) fullText))
              = checkLog (snd (processText st fullText)))"
proof -
  let ?st1 = "snd (processText st fullText)"
  let ?ms = "matchesFrom fullText 0"
  note first = processText_consistent [OF assms(1), of fullText]
  have "isValidWord ?st1 = isValidWord st" by (rule isValidWord_cong [OF first(3)])
  then have inv: "invalidMatches ?st1 ?ms = invalidMatches st ?ms" by (simp add: invalidMatches_def)
  have same: "fst (processText ?st1 fullText) = fst (processText st fullText)"
    using processText_consistent(1) [OF first(2), of fullText] first(1) inv by simp
  have quiet: "checkLog (snd (processText ?st1 fullText)) = checkLog ?st1"
    if small: "int (card (set (wordKeys fullText))) \<le> capacity (checkedCache st)"
  proof -
    have "int (card (set [] \<union> set (keysOf ?ms))) \<le> capacity (checkedCache st)"
      using small by (simp add: wordKeys_keysOf)
    from fold_processWord_recent [OF assms(2) _ this, of "chain (checkedCache st)" "[]"]
    obtain xs' ys' where ok: "lru_ok (checkedCache ?st1)"
      and ch: "chain (checkedCache ?st1) = xs' @ ys'" and xs': "set xs' = set (keysOf ?ms)"
      by (auto simp: processText_def processTextLoop_fold)
    from ok ch xs' have "set (keysOf ?ms) \<subseteq> dom (cache (checkedCache ?st1))"
      by (auto simp: lru_ok_def)
    from fold_processWord_quiet [OF this, of "[]"] show ?thesis
      by (simp add: processText_def processTextLoop_fold)
  qed
  from same quiet show ?thesis by blast
qed

theorem processText_twice_witness:
  "fst (processText (snd (processText readyWorker ''helo wrold'')) ''helo wrold'')
     = [\<lparr>word = ''helo'', start = 0, endpos = 4, isCorrect = None\<rparr>,
        \<lparr>word = ''wrold'', start = 5, endpos = 10, isCorrect = None\<rparr>]
   \<and> checkLog (snd (processText (snd (processText readyWorker ''helo wrold'')) ''helo wrold''))
     = [''helo'', ''wrold'']"
proof -
  have "cacheConsistent readyWorker" "lru_ok (checkedCache readyWorker)"
    by (simp_all add: cacheConsistent_def lru_ok_def readyWorker_state)
  from processText_twice [OF this, of "''helo wrold''"]
  show ?thesis
    by (simp add: helo_wrold_keys helo_wrold_log helo_wrold_full readyWorker_state)
qed

text \<open>
  C7, as stated, fails for the text of the 5001 distinct words \<open>aa\<close>, \<open>aaa\<close>, ...,
  checked twice by \<open>readyWorker\<close>: the word cache holds 5000 verdicts, the first check
  evicts one of them, and the second check hands words to the dictionary again.
\<close>

theorem processText_twice_calls_dictionary:
  "checkLog (snd (processText (snd (processText readyWorker (manyWords 5001))) (manyWords 5001)))
     \<noteq> checkLog (snd (processText readyWorker (manyWords 5001)))"
proof -
  let ?t = "manyWords 5001"
  let ?ms = "matchesFrom ?t 0"
  let ?st1 = "snd (processText readyWorker ?t)"
  have b0: "lru_bounded (checkedCache readyWorker)"
    by (simp add: lru_bounded_def lru_ok_def readyWorker_state)
  from fold_processWord_bounded [OF b0, of ?ms "[]"]
  have b1: "lru_bounded (checkedCache ?st1)" and cap1: "capacity (checkedCache ?st1) = 5000"
    by (simp_all add: processText_def processTextLoop_fold readyWorker_state)
  have cons: "cacheConsistent readyWorker"
    by (simp add: cacheConsistent_def readyWorker_state)
  from processText_consistent(3) [OF cons, of ?t]
  have d1: "dictionary ?st1 = Some sampleTypo" "customWords ?st1 = {}"
    by (simp_all add: sameDictionary_def readyWorker_state)
  have "\<not> set (keysOf ?ms) \<subseteq> dom (cache (checkedCache ?st1))"
  proof
    assume "set (keysOf ?ms) \<subseteq> dom (cache (checkedCache ?st1))"
    moreover have "finite (dom (cache (checkedCache ?st1)))"
      using b1 by (metis lru_bounded_def lru_ok_def List.finite_set)
    ultimately have "card (set (keysOf ?ms)) \<le> card (dom (cache (checkedCache ?st1)))"
      by (rule card_mono [rotated])
    moreover have "card (set (keysOf ?ms)) = 5001"
      using card_wordKeys_manyWords [of 5001] by (simp add: wordKeys_keysOf)
    ultimately show False using lru_bounded_card [OF b1] cap1 by simp
  qed
  from fold_processWord_loud [OF d1 this, of "[]"]
  show ?thesis by (auto simp: processText_def processTextLoop_fold)
qed

subsection \<open>States the worker reaches\<close>

text \<open>
  The invariant holds at the start and every message handler keeps it, so the hypotheses
  on the word cache made above hold whenever the worker handles a message.
\<close>

lemma lru_bounded_clear: "0 \<le> capacity c \<Longrightarrow> lru_bounded (LRU_clear c)"
  by (simp add: lru_bounded_def lru_ok_def LRU_clear_def)

lemma LRU_clear_capacity [simp]: "capacity (LRU_clear c) = capacity c"
  by (simp add: LRU_clear_def)

lemma LRU_clear_cache [simp]: "cache (LRU_clear c) = Map.empty"
  by (simp add: LRU_clear_def)

lemma workerInv_initial: "workerInv initialWorker"
  by (simp add: workerInv_def initialWorker_def cacheConsistent_def lru_bounded_def lru_ok_def
      newLRUCache_def)

lemma workerInv_postMessage [simp]: "workerInv (postMessage r st) = workerInv st"
  by (simp add: workerInv_def postMessage_def cacheConsistent_def isValidWord_def)

lemma workerInv_lastFullText [simp]: "workerInv (st\<lparr>lastFullText := t\<rparr>) = workerInv st"
  by (simp add: workerInv_def cacheConsistent_def isValidWord_def)

lemma workerInv_currentCheckCache [simp]: "workerInv (st\<lparr>currentCheckCache := m\<rparr>) = workerInv st"
  by (simp add: workerInv_def cacheConsistent_def isValidWord_def)

lemma fold_processWord_regionCache:
  "regionCache (snd (fold processWord ms (res, st))) = regionCache st"
proof (induction ms arbitrary: res st)
  case Nil
  then show ?case by simp
next
  case (Cons m ms)
  obtain res1 st1 where step: "processWord m (res, st) = (res1, st1)"
    by (cases "processWord m (res, st)")
  with processWord_regionCache [of m res st] have "regionCache st1 = regionCache st" by simp
  with Cons.IH [of res1 st1] step show ?case by simp
qed

lemma workerInv_processText:
  assumes "workerInv st"
  shows "workerInv (snd (processText st s))"
proof -
  from assms have c: "cacheConsistent st" and b: "lru_bounded (checkedCache st)"
    by (simp_all add: workerInv_def)
  note cons = processText_consistent(2) [OF c, of s]
  note bnd = fold_processWord_bounded [OF b, of "matchesFrom s 0" "[]"]
  note rc = fold_processWord_regionCache [of "matchesFrom s 0" "[]" st]
  show ?thesis
    using assms cons bnd rc by (simp add: workerInv_def processText_def processTextLoop_fold)
qed

lemma processRegionWord_checkedCache:
  "checkedCache (snd (snd (snd (processRegionWord rs m (rw, rr, res, st)))))
     = checkedCache (snd (checkWord st (toLowerCase (snd m))))"
proof -
  obtain idx w where m: "m = (idx, w)" by (cases m)
  obtain b st1 where cw: "checkWord st (toLowerCase w) = (b, st1)"
    by (cases "checkWord st (toLowerCase w)")
  show ?thesis using m cw by (simp add: processRegionWord_def Let_def)
qed

lemma fold_processRegionWord_bounded:
  assumes "lru_bounded (checkedCache st)"
  shows "lru_bounded (checkedCache (snd (snd (snd (fold (processRegionWord rs) ms (rw, rr, res, st))))))
    \<and> capacity (checkedCache (snd (snd (snd (fold (processRegionWord rs) ms (rw, rr, res, st))))))
        = capacity (checkedCache st)"
  using assms
proof (induction ms arbitrary: rw rr res st)
  case Nil
  then show ?case by simp
next
  case (Cons m ms)
  obtain rw1 rr1 res1 st1 where step: "processRegionWord rs m (rw, rr, res, st) = (rw1, rr1, res1, st1)"
    by (cases "processRegionWord rs m (rw, rr, res, st)") auto
  with processRegionWord_checkedCache [of rs m rw rr res st]
  have c1: "checkedCache st1 = checkedCache (snd (checkWord st (toLowerCase (snd m))))" by simp
  have "lru_bounded (checkedCache st1)" unfolding c1 by (rule checkWord_bounded [OF Cons.prems])
  from Cons.IH [OF this, of rw1 rr1 res1] step c1 show ?case by simp
qed

lemma workerInv_recomputeRegion:
  assumes "workerInv st"
  shows "workerInv (snd (recomputeRegion r (res, st)))"
proof -
  from assms have c: "cacheConsistent st" and b: "lru_bounded (checkedCache st)"
    by (simp_all add: workerInv_def)
  let ?f = "fold (processRegionWord (region_start r)) (matchesFrom (region_text r) 0) ([], [], res, st)"
  obtain rw rr res1 st1 where f: "?f = (rw, rr, res1, st1)" by (cases ?f) auto
  from fold_processRegionWord_consistent [OF c, of "region_start r" "matchesFrom (region_text r) 0"
      "[]" "[]" res] f
  have c1: "cacheConsistent st1" and rc1: "regionCache st1 = regionCache st" by auto
  from fold_processRegionWord_bounded [OF b, of "region_start r" "matchesFrom (region_text r) 0"
      "[]" "[]" res] f
  have b1: "lru_bounded (checkedCache st1)" "capacity (checkedCache st1) = capacity (checkedCache st)"
    by simp_all
  have "snd (recomputeRegion r (res, st))
      = st1\<lparr>regionCache := LRU_set (region_start r, region_end r)
                                \<lparr>entry_words = rw, entry_results = rr\<rparr> (regionCache st1)\<rparr>"
    using f by (simp add: recomputeRegion_def regionLoop_fold)
  then show ?thesis
    using assms c1 rc1 b1 by (simp add: workerInv_def lru_bounded_set)
qed

lemma workerInv_processRegion:
  assumes "workerInv st"
  shows "workerInv (snd (processRegion r (res, st)))"
proof -
  let ?st0 = "st\<lparr>regionCache := snd (LRU_get (region_start r, region_end r) (regionCache st))\<rparr>"
  have inv0: "workerInv ?st0"
    using assms by (simp add: workerInv_def lru_bounded_get)
  from workerInv_recomputeRegion [OF inv0, of r res] inv0 show ?thesis
    by (simp add: processRegion_unfold split: option.splits)
qed

lemma workerInv_processIncrementalText:
  assumes "workerInv st"
  shows "workerInv (snd (processIncrementalText st s regions))"
proof -
  have "workerInv st \<Longrightarrow> workerInv (snd (fold processRegion regions (res, st)))" for res st
  proof (induction regions arbitrary: res st)
    case Nil
    then show ?case by simp
  next
    case (Cons r rs)
    obtain res1 st1 where step: "processRegion r (res, st) = (res1, st1)"
      by (cases "processRegion r (res, st)")
    with workerInv_processRegion [OF Cons.prems, of r res] have "workerInv st1" by simp
    from Cons.IH [OF this, of res1] step show ?case by simp
  qed
  from this [of "st\<lparr>currentCheckCache := Map.empty\<rparr>" "[]"] assms show ?thesis
    by (simp add: processIncrementalText_def)
qed

lemma workerInv_cleared:
  assumes "workerInv st"
  shows "workerInv (st\<lparr>dictionary := d, customWords := cw, checkedCache := LRU_clear (checkedCache st),
                      regionCache := LRU_clear (regionCache st)\<rparr>)"
  using assms by (simp add: workerInv_def cacheConsistent_def lru_bounded_clear)

lemma workerInv_onmessage:
  assumes "workerInv st"
  shows "workerInv (onmessage st msg)"
proof (cases msg)
  case (INIT_DICTIONARY d)
  with workerInv_cleared [OF assms, where d = "Some d" and cw = "customWords st"] show ?thesis by simp
next
  case (ADD_WORD w)
  let ?st1 = "st\<lparr>customWords := insert (toLowerCase w) (customWords st),
                     checkedCache := LRU_clear (checkedCache st),
                     regionCache := LRU_clear (regionCache st),
                     currentCheckCache := Map.empty\<rparr>"
  have "workerInv ?st1"
    using workerInv_cleared [OF assms, where d = "dictionary st"
        and cw = "insert (toLowerCase w) (customWords st)"]
    by (simp add: workerInv_def cacheConsistent_def)
  with workerInv_processText [of ?st1 "lastFullText st"] ADD_WORD show ?thesis
    by (simp add: Let_def split: prod.splits) (metis snd_conv)
next
  case (REMOVE_WORD w)
  let ?st1 = "st\<lparr>customWords := customWords st - {toLowerCase w},
                     checkedCache := LRU_clear (checkedCache st),
                     regionCache := LRU_clear (regionCache st),
                     currentCheckCache := Map.empty\<rparr>"
  have "workerInv ?st1"
    using workerInv_cleared [OF assms, where d = "dictionary st"
        and cw = "customWords st - {toLowerCase w}"]
    by (simp add: workerInv_def cacheConsistent_def)
  with workerInv_processText [of ?st1 "lastFullText st"] REMOVE_WORD show ?thesis
    by (simp add: Let_def split: prod.splits) (metis snd_conv)
next
  case CLEAR_WORDS
  with workerInv_cleared [OF assms, where d = "dictionary st" and cw = "{}"] show ?thesis
    by (simp add: workerInv_def cacheConsistent_def)
next
  case GET_CACHE_STATS
  with assms show ?thesis by simp
next
  case (GET_SUGGESTIONS w)
  with assms show ?thesis by simp
next
  case (CHECK_TEXT t)
  with workerInv_processText [OF assms, of t] show ?thesis
    by (simp split: prod.splits) (metis snd_conv)
next
  case (CHECK_INCREMENTAL t regions)
  with workerInv_processIncrementalText [OF assms, of t regions] show ?thesis
    by (simp split: prod.splits) (metis snd_conv)
next
  case OTHER_MESSAGE
  with assms show ?thesis by simp
qed

lemma workerInv_reachable: "workerInv (foldl onmessage initialWorker msgs)"
proof (induction msgs rule: rev_induct)
  case Nil
  then show ?case by (simp add: workerInv_initial)
next
  case (snoc m msgs)
  then show ?case by (simp add: workerInv_onmessage)
qed

subsection \<open>Custom-word mutations\<close>

lemma checkWord_posted [simp]: "posted (snd (checkWord st w)) = posted st"
  by (cases "cache (checkedCache st) w")
    (simp_all add: checkWord_hit checkWord_miss logCheck_def split: option.splits)

lemma processWord_posted [simp]: "posted (snd (processWord m (res, st))) = posted st"
proof -
  obtain idx w where m: "m = (idx, w)" by (cases m)
  obtain b st1 where cw: "checkWord st (toLowerCase w) = (b, st1)"
    by (cases "checkWord st (toLowerCase w)")
  from checkWord_posted [of st "toLowerCase w"] cw have "posted st1 = posted st" by simp
  then show ?thesis using m cw by (simp add: processWord_def)
qed

lemma fold_processWord_posted: "posted (snd (fold processWord ms (res, st))) = posted st"
proof (induction ms arbitrary: res st)
  case Nil
  then show ?case by simp
next
  case (Cons m ms)
  obtain res1 st1 where step: "processWord m (res, st) = (res1, st1)"
    by (cases "processWord m (res, st)")
  with processWord_posted [of m res st] have "posted st1 = posted st" by simp
  with Cons.IH [of res1 st1] step show ?case by simp
qed

lemma processText_posted: "posted (snd (processText st s)) = posted st"
  by (simp add: processText_def processTextLoop_fold fold_processWord_posted)

lemma processText_regionCache: "regionCache (snd (processText st s)) = regionCache st"
  by (simp add: processText_def processTextLoop_fold fold_processWord_regionCache)

lemma LRU_set_dom: "dom (cache (LRU_set k v c)) \<subseteq> insert k (dom (cache c))"
  using LRU_set_cache_cases [of k v c] by (auto simp: dom_def)

lemma checkWord_dom:
  "dom (cache (checkedCache (snd (checkWord st w)))) \<subseteq> insert w (dom (cache (checkedCache st)))"
proof (cases "cache (checkedCache st) w")
  case None
  then show ?thesis using LRU_set_dom [of w "isValidWord st w" "checkedCache st"]
    by (simp add: checkWord_miss)
next
  case (Some v)
  then show ?thesis by (auto simp: checkWord_hit)
qed

lemma fold_processWord_dom:
  "dom (cache (checkedCache (snd (fold processWord ms (res, st)))))
     \<subseteq> dom (cache (checkedCache st)) \<union> set (keysOf ms)"
proof (induction ms arbitrary: res st)
  case Nil
  then show ?case by simp
next
  case (Cons m ms)
  obtain res1 st1 where step: "processWord m (res, st) = (res1, st1)"
    by (cases "processWord m (res, st)")
  with processWord_cache(1) [of m res st] checkWord_dom [of st "toLowerCase (snd m)"]
  have "dom (cache (checkedCache st1)) \<subseteq> insert (toLowerCase (snd m)) (dom (cache (checkedCache st)))"
    by simp
  with Cons.IH [of res1 st1] step show ?case by (auto simp: keysOf_def)
qed

lemma processText_dom:
  "dom (cache (checkedCache (snd (processText st s))))
     \<subseteq> dom (cache (checkedCache st)) \<union> set (wordKeys s)"
  using fold_processWord_dom [of "matchesFrom s 0" "[]" st]
  by (simp add: processText_def processTextLoop_fold wordKeys_keysOf)

lemma recheck_after_mutation:
  fixes st :: worker and ws :: "string set"
  defines "st1 \<equiv> st\<lparr>customWords := ws, checkedCache := LRU_clear (checkedCache st),
                        regionCache := LRU_clear (regionCache st), currentCheckCache := Map.empty\<rparr>"
  shows "fst (processText st1 s) = map fullResult (invalidMatches (withCustomWords st ws) (matchesFrom s 0))"
    and "posted (snd (processText st1 s)) = posted st"
    and "cache (regionCache (snd (processText st1 s))) = Map.empty"
    and "dom (cache (checkedCache (snd (processText st1 s)))) \<subseteq> set (wordKeys s)"
    and "customWords (snd (processText st1 s)) = ws"
proof -
  have c: "cacheConsistent st1" by (simp add: st1_def cacheConsistent_def)
  show "customWords (snd (processText st1 s)) = ws"
    using processText_consistent(3) [OF c, of s] by (simp add: sameDictionary_def st1_def)
  have "isValidWord st1 = isValidWord (withCustomWords st ws)"
    by (simp add: st1_def withCustomWords_def isValidWord_def fun_eq_iff)
  then have "invalidMatches st1 = invalidMatches (withCustomWords st ws)"
    by (simp add: invalidMatches_def fun_eq_iff)
  with processText_consistent(1) [OF c, of s]
  show "fst (processText st1 s) = map fullResult (invalidMatches (withCustomWords st ws) (matchesFrom s 0))"
    by simp
  show "posted (snd (processText st1 s)) = posted st"
    by (simp add: processText_posted st1_def)
  show "cache (regionCache (snd (processText st1 s))) = Map.empty"
    by (simp add: processText_regionCache st1_def)
  show "dom (cache (checkedCache (snd (processText st1 s)))) \<subseteq> set (wordKeys s)"
    using processText_dom [of st1 s] by (simp add: st1_def)
qed

text \<open>
  C3, as the code has it. \<open>ADD_WORD\<close> and \<open>REMOVE_WORD\<close> change the custom words, empty
  both caches and, when the saved full text is not empty, post a \<open>CHECK_RESULT\<close> that
  lists the matches of that text which the dictionary and the new custom words reject,
  before they post \<open>DICTIONARY_UPDATED\<close>; afterwards the region cache is empty and the word
  cache holds words of that text only. \<open>CLEAR_WORDS\<close> empties the custom words and both
  caches and posts nothing.
\<close>

theorem custom_word_mutations:
  "(\<exists>m. posted (onmessage st (ADD_WORD w))
        = posted st
          @ (if lastFullText st = [] then []
             else [CHECK_RESULT
                     (map fullResult
                        (invalidMatches (withCustomWords st (insert (toLowerCase w) (customWords st)))
                           (matchesFrom (lastFullText st) 0))) m])
          @ [DICTIONARY_UPDATED ''ADD_WORD'' w])
   \<and> customWords (onmessage st (ADD_WORD w)) = insert (toLowerCase w) (customWords st)
   \<and> cache (regionCache (onmessage st (ADD_WORD w))) = Map.empty
   \<and> dom (cache (checkedCache (onmessage st (ADD_WORD w)))) \<subseteq> set (wordKeys (lastFullText st))
   \<and> (\<exists>m. posted (onmessage st (REMOVE_WORD w))
        = posted st
          @ (if lastFullText st = [] then []
             else [CHECK_RESULT
                     (map fullResult
                        (invalidMatches (withCustomWords st (customWords st - {toLowerCase w}))
                           (matchesFrom (lastFullText st) 0))) m])
          @ [DICTIONARY_UPDATED ''REMOVE_WORD'' w])
   \<and> customWords (onmessage st (REMOVE_WORD w)) = customWords st - {toLowerCase w}
   \<and> cache (regionCache (onmessage st (REMOVE_WORD w))) = Map.empty
   \<and> dom (cache (checkedCache (onmessage st (REMOVE_WORD w)))) \<subseteq> set (wordKeys (lastFullText st))
   \<and> posted (onmessage st CLEAR_WORDS) = posted st
   \<and> customWords (onmessage st CLEAR_WORDS) = {}
   \<and> cache (regionCache (onmessage st CLEAR_WORDS)) = Map.empty
   \<and> cache (checkedCache (onmessage st CLEAR_WORDS)) = Map.empty"
proof -
  have mutation:
    "(\<exists>m. posted (postMessage u
              (if lastFullText st \<noteq> []
               then (case processText st1 (lastFullText st) of
                       (invalidWords, st') \<Rightarrow>
                         postMessage (CHECK_RESULT invalidWords (currentCheckCache st')) st')
               else st1))
        = posted st
          @ (if lastFullText st = [] then []
             else [CHECK_RESULT
                     (map fullResult (invalidMatches (withCustomWords st ws)
                        (matchesFrom (lastFullText st) 0))) m])
          @ [u])
     \<and> customWords (postMessage u
              (if lastFullText st \<noteq> []
               then (case processText st1 (lastFullText st) of
                       (invalidWords, st') \<Rightarrow>
                         postMessage (CHECK_RESULT invalidWords (currentCheckCache st')) st')
               else st1)) = ws
     \<and> cache (regionCache (postMessage u
              (if lastFullText st \<noteq> []
               then (case processText st1 (lastFullText st) of
                       (invalidWords, st') \<Rightarrow>
                         postMessage (CHECK_RESULT invalidWords (currentCheckCache st')) st')
               else st1))) = Map.empty
     \<and> dom (cache (checkedCache (postMessage u
              (if lastFullText st \<noteq> []
               then (case processText st1 (lastFullText st) of
                       (invalidWords, st') \<Rightarrow>
                         postMessage (CHECK_RESULT invalidWords (currentCheckCache st')) st')
               else st1)))) \<subseteq> set (wordKeys (lastFullText st))"
    if st1: "st1 = st\<lparr>customWords := ws, checkedCache := LRU_clear (checkedCache st),
                        regionCache := LRU_clear (regionCache st), currentCheckCache := Map.empty\<rparr>"
    for st1 ws u
  proof (cases "lastFullText st = []")
    case True
    then show ?thesis by (simp add: st1 postMessage_def)
  next
    case False
    obtain rs st' where p: "processText st1 (lastFullText st) = (rs, st')"
      by (cases "processText st1 (lastFullText st)")
    note r = recheck_after_mutation [of st ws "lastFullText st", folded st1]
    from r p have "rs = map fullResult (invalidMatches (withCustomWords st ws) (matchesFrom (lastFullText st) 0))"
      and "posted st' = posted st" and "cache (regionCache st') = Map.empty"
      and "dom (cache (checkedCache st')) \<subseteq> set (wordKeys (lastFullText st))"
      and "customWords st' = ws"
      by simp_all
    with False p show ?thesis by (simp add: postMessage_def)
  qed
  have lf: "lastFullText (st\<lparr>customWords := ws, checkedCache := a, regionCache := b,
      currentCheckCache := c\<rparr>) = lastFullText st" for ws a b c
    by simp
  note add = mutation [where ws = "insert (toLowerCase w) (customWords st)"
      and u = "DICTIONARY_UPDATED ''ADD_WORD'' w", OF refl]
  note remove = mutation [where ws = "customWords st - {toLowerCase w}"
      and u = "DICTIONARY_UPDATED ''REMOVE_WORD'' w", OF refl]
  have clear: "posted (onmessage st CLEAR_WORDS) = posted st
   \<and> customWords (onmessage st CLEAR_WORDS) = {}
   \<and> cache (regionCache (onmessage st CLEAR_WORDS)) = Map.empty
   \<and> cache (checkedCache (onmessage st CLEAR_WORDS)) = Map.empty"
    by simp
  from add remove clear show ?thesis
    by (simp only: onmessage.simps Let_def lf)
qed

lemma clearScenario_text: "lastFullText clearScenario = ''helo wrold''"
  by code_simp

lemma clearScenario_recheck:
  "map word (fst (processText (onmessage clearScenario CLEAR_WORDS) ''helo wrold''))
     = [''helo'', ''wrold'']"
  by code_simp

lemma clearScenario_remove:
  "length (posted (onmessage clearScenario (REMOVE_WORD ''helo'')))
     = length (posted clearScenario) + 2"
  by code_simp

text \<open>
  C3, as stated, fails for \<open>CLEAR_WORDS\<close>: in a worker whose custom words hold \<open>helo\<close> and
  whose last full text is \<open>helo wrold\<close>, the message empties both caches but posts
  nothing, although a full check of the saved text would now report \<open>helo\<close> as well;
  \<open>REMOVE_WORD\<close> on the same state posts its \<open>CHECK_RESULT\<close> and its
  \<open>DICTIONARY_UPDATED\<close>.
\<close>

theorem clear_words_posts_nothing:
  "lastFullText clearScenario = ''helo wrold''
   \<and> cache (checkedCache (onmessage clearScenario CLEAR_WORDS)) = Map.empty
   \<and> cache (regionCache (onmessage clearScenario CLEAR_WORDS)) = Map.empty
   \<and> posted (onmessage clearScenario CLEAR_WORDS) = posted clearScenario
   \<and> map word (fst (processText (onmessage clearScenario CLEAR_WORDS) ''helo wrold''))
       = [''helo'', ''wrold'']
   \<and> length (posted (onmessage clearScenario (REMOVE_WORD ''helo'')))
       = length (posted clearScenario) + 2"
  using clearScenario_text clearScenario_recheck clearScenario_remove
  by (simp add: LRU_clear_def)

end
